theory Spec2Isabelle
  imports Main "HOL-Library.List_Lexorder" "HOL-Library.Option_ord" "HOL-Library.Multiset"
begin

section \<open>Python strings and character classes\<close>

text \<open>
  A Python \<open>str\<close> is a sequence of Unicode code points, so it is modelled as a list of
  natural numbers.  Literals of the source are written as Isabelle strings and mapped to
  their code points by \<open>u\<close>.

  The classification of the ASCII range is written out.  The classification of the code
  points from 128 on comes from the Unicode character database of the Python runtime,
  which is not part of the repository: it is the parameter \<open>U\<close> of every function that
  depends on it.
\<close>

type_synonym pystr = "nat list"

definition u :: "string \<Rightarrow> pystr" where
  "u s = map of_char s"

record unicode_db =
  u_alnum :: "nat \<Rightarrow> bool"         \<comment> \<open>\<open>str.isalnum\<close> beyond ASCII\<close>
  u_space :: "nat \<Rightarrow> bool"         \<comment> \<open>\<open>str.isspace\<close> beyond ASCII\<close>
  u_digit :: "nat \<Rightarrow> bool"         \<comment> \<open>\<open>str.isdigit\<close> beyond ASCII\<close>
  u_decimal :: "nat \<Rightarrow> nat option"  \<comment> \<open>value of a decimal digit (category Nd) beyond ASCII\<close>

definition ascii_digit :: "nat \<Rightarrow> bool" where
  "ascii_digit c = (48 \<le> c \<and> c \<le> 57)"

definition ascii_alnum :: "nat \<Rightarrow> bool" where
  "ascii_alnum c = (ascii_digit c \<or> (65 \<le> c \<and> c \<le> 90) \<or> (97 \<le> c \<and> c \<le> 122))"

definition ascii_space :: "nat \<Rightarrow> bool" where
  \<comment> \<open>tab, LF, VT, FF, CR, the separators FS GS RS US, and the blank\<close>
  "ascii_space c = ((9 \<le> c \<and> c \<le> 13) \<or> (28 \<le> c \<and> c \<le> 32))"

definition is_word :: "unicode_db \<Rightarrow> nat \<Rightarrow> bool" where
  \<comment> \<open>\<open>\w\<close> of a str pattern: alphanumeric or underscore\<close>
  "is_word U c = (if c < 128 then ascii_alnum c \<or> c = 95 else u_alnum U c)"

definition is_space :: "unicode_db \<Rightarrow> nat \<Rightarrow> bool" where
  \<comment> \<open>\<open>\s\<close> of a str pattern, and the characters \<open>str.strip()\<close> removes\<close>
  "is_space U c = (if c < 128 then ascii_space c else u_space U c)"

definition is_decimal :: "unicode_db \<Rightarrow> nat \<Rightarrow> bool" where
  \<comment> \<open>\<open>\d\<close> of a str pattern: a decimal digit\<close>
  "is_decimal U c = (if c < 128 then ascii_digit c else u_decimal U c \<noteq> None)"

definition lower :: "nat \<Rightarrow> nat" where
  "lower c = (if 65 \<le> c \<and> c \<le> 90 then c + 32 else c)"

definition ieq :: "nat \<Rightarrow> nat \<Rightarrow> bool" where
  \<comment> \<open>a literal of a pattern compiled with IGNORECASE against a character of the text;
      the literals of the source are ASCII letters, digits, \<open>.\<close> and \<open>-\<close>, and every
      text they are matched against has passed the non-ASCII filter\<close>
  "ieq p c = (lower p = lower c)"

definition py_strip :: "unicode_db \<Rightarrow> pystr \<Rightarrow> pystr" where
  \<comment> \<open>\<open>s.strip()\<close>\<close>
  "py_strip U s = rev (dropWhile (is_space U) (rev (dropWhile (is_space U) s)))"

definition py_strip_chars :: "pystr \<Rightarrow> pystr \<Rightarrow> pystr" where
  \<comment> \<open>\<open>s.strip(chars)\<close>\<close>
  "py_strip_chars cs s =
     rev (dropWhile (\<lambda>c. c \<in> set cs) (rev (dropWhile (\<lambda>c. c \<in> set cs) s)))"

section \<open>The filename normaliser \<open>clean_filename\<close>\<close>

subsection \<open>Line 104: \<open>re.sub(r'\[.*?\]', '', filename)\<close>\<close>

text \<open>
  After an opening bracket the lazy \<open>.*?\<close> stops at the first closing bracket; the dot
  does not match a line feed, so a line feed before that bracket makes the match fail.
\<close>

fun bracket_end :: "pystr \<Rightarrow> pystr option" where
  "bracket_end [] = None"
| "bracket_end (c # cs) =
     (if c = 93 then Some cs else if c = 10 then None else bracket_end cs)"

lemma bracket_end_length: "bracket_end cs = Some r \<Longrightarrow> length r < Suc (length cs)"
  by (induction cs) (auto split: if_splits)

function strip_brackets :: "pystr \<Rightarrow> pystr" where
  "strip_brackets [] = []"
| "strip_brackets (c # cs) =
     (if c = 91 then
        (case bracket_end cs of
           Some r \<Rightarrow> strip_brackets r
         | None \<Rightarrow> c # strip_brackets cs)
      else c # strip_brackets cs)"
  by pat_completeness auto
termination
  by (relation "measure length") (auto dest: bracket_end_length)

subsection \<open>Line 107: \<open>re.sub(r'^[@\W_]+', '', filename)\<close>\<close>

definition strip_prefix :: "unicode_db \<Rightarrow> pystr \<Rightarrow> pystr" where
  "strip_prefix U s = dropWhile (\<lambda>c. c = 64 \<or> \<not> is_word U c \<or> c = 95) s"

subsection \<open>Line 110: \<open>re.sub(r'[^\x00-\x7F]+', '', filename)\<close>\<close>

definition strip_non_ascii :: "pystr \<Rightarrow> pystr" where
  "strip_non_ascii s = filter (\<lambda>c. c < 128) s"

subsection \<open>Line 113: \<open>re.sub(r'[_\s]+', ' ', filename).strip()\<close>\<close>

text \<open>\<open>sub_runs p\<close> replaces every maximal run of characters of the class \<open>p\<close> by one blank.\<close>

function sub_runs :: "(nat \<Rightarrow> bool) \<Rightarrow> pystr \<Rightarrow> pystr" where
  "sub_runs p [] = []"
| "sub_runs p (c # cs) =
     (if p c then 32 # sub_runs p (dropWhile p cs) else c # sub_runs p cs)"
  by pat_completeness auto
termination
  by (relation "measure (\<lambda>(p, s). length s)")
     (auto simp: length_dropWhile_le less_Suc_eq_le)

definition collapse_ws :: "unicode_db \<Rightarrow> pystr \<Rightarrow> pystr" where
  "collapse_ws U s = py_strip U (sub_runs (\<lambda>c. c = 95 \<or> is_space U c) s)"

subsection \<open>Lines 116-117: the denylist of tags\<close>

text \<open>
  Each alternative of the pattern is a literal, matched without regard to case, followed
  by nothing, by \<open>\d*\<close> or by \<open>\d+\<close>; the alternatives are tried in the order of the
  source.  The group \<open>(\W|$)\<close> that follows takes one non-word character or stands at
  the end of the text.  The digits are taken greedily: giving one back leaves a digit,
  which is a word character, in front of \<open>(\W|$)\<close>, so no shorter run can match.
\<close>

datatype digits = NoDigits | DigitsStar | DigitsPlus

definition tags :: "(pystr \<times> digits) list" where
  "tags =
    [(u ''HDRip'', NoDigits), (u ''10bit'', NoDigits), (u ''x264'', NoDigits),
     (u ''AAC'', DigitsStar), (u ''MB'', NoDigits), (u ''AMZN'', NoDigits),
     (u ''WEB-DL'', NoDigits), (u ''WEBRip'', NoDigits), (u ''HEVC'', NoDigits),
     (u ''x265'', NoDigits), (u ''ESub'', NoDigits), (u ''HQ'', NoDigits),
     (u ''.mkv'', NoDigits), (u ''.mp4'', NoDigits), (u ''.avi'', NoDigits),
     (u ''.mov'', NoDigits), (u ''BluRay'', NoDigits), (u ''DVDRip'', NoDigits),
     (u ''720p'', NoDigits), (u ''1080p'', NoDigits), (u ''540p'', NoDigits),
     (u ''SD'', NoDigits), (u ''HD'', NoDigits), (u ''CAM'', NoDigits),
     (u ''DVDScr'', NoDigits), (u ''R5'', NoDigits), (u ''TS'', NoDigits),
     (u ''Rip'', NoDigits), (u ''BRRip'', NoDigits), (u ''AC3'', NoDigits),
     (u ''DualAudio'', NoDigits), (u ''6CH'', NoDigits), (u ''v'', DigitsPlus)]"

fun match_lit :: "pystr \<Rightarrow> pystr \<Rightarrow> pystr option" where
  "match_lit [] s = Some s"
| "match_lit (p # ps) [] = None"
| "match_lit (p # ps) (c # cs) = (if ieq p c then match_lit ps cs else None)"

definition match_digits :: "unicode_db \<Rightarrow> digits \<Rightarrow> pystr \<Rightarrow> pystr option" where
  "match_digits U d s =
     (case d of
        NoDigits \<Rightarrow> Some s
      | DigitsStar \<Rightarrow> Some (dropWhile (is_decimal U) s)
      | DigitsPlus \<Rightarrow>
          (case s of
             [] \<Rightarrow> None
           | c # cs \<Rightarrow> if is_decimal U c then Some (dropWhile (is_decimal U) cs) else None))"

definition match_end :: "unicode_db \<Rightarrow> pystr \<Rightarrow> pystr option" where
  \<comment> \<open>\<open>(\W|$)\<close>\<close>
  "match_end U s =
     (case s of [] \<Rightarrow> Some [] | c # cs \<Rightarrow> if is_word U c then None else Some cs)"

definition match_tag :: "unicode_db \<Rightarrow> pystr \<times> digits \<Rightarrow> pystr \<Rightarrow> pystr option" where
  "match_tag U t s =
     (case match_lit (fst t) s of
        None \<Rightarrow> None
      | Some r \<Rightarrow>
          (case match_digits U (snd t) r of
             None \<Rightarrow> None
           | Some r' \<Rightarrow> match_end U r'))"

fun first_tag :: "unicode_db \<Rightarrow> (pystr \<times> digits) list \<Rightarrow> pystr \<Rightarrow> pystr option" where
  "first_tag U [] s = None"
| "first_tag U (t # ts) s =
     (case match_tag U t s of Some r \<Rightarrow> Some r | None \<Rightarrow> first_tag U ts s)"

lemma match_lit_length: "match_lit p s = Some r \<Longrightarrow> length r + length p = length s"
  by (induction p s rule: match_lit.induct) (auto split: if_splits)

lemma match_digits_length: "match_digits U d s = Some r \<Longrightarrow> length r \<le> length s"
  by (auto simp: match_digits_def length_dropWhile_le le_SucI
           split: digits.splits list.splits if_splits)

lemma match_end_length: "match_end U s = Some r \<Longrightarrow> length r \<le> length s"
  by (auto simp: match_end_def split: list.splits if_splits)

lemma match_tag_length:
  "match_tag U t s = Some r \<Longrightarrow> length r + length (fst t) \<le> length s"
  by (auto simp: match_tag_def split: option.splits
           dest!: match_lit_length match_digits_length match_end_length)

lemma first_tag_length:
  "first_tag U ts s = Some r \<Longrightarrow> \<forall>t \<in> set ts. fst t \<noteq> [] \<Longrightarrow> length r < length s"
proof (induction ts)
  case Nil
  then show ?case by simp
next
  case (Cons t ts)
  show ?case
  proof (cases "match_tag U t s")
    case None
    with Cons show ?thesis by simp
  next
    case (Some r')
    with Cons.prems have "r' = r" and "fst t \<noteq> []" by simp_all
    with Some match_tag_length [of U t s r] show ?thesis
      by (cases "fst t") auto
  qed
qed

lemma tags_nonempty: "\<forall>t \<in> set tags. fst t \<noteq> []"
  by (simp add: tags_def u_def)

lemma first_tag_tags_length: "first_tag U tags s = Some r \<Longrightarrow> length r < length s"
  using first_tag_length tags_nonempty by blast

function sub_tags :: "unicode_db \<Rightarrow> pystr \<Rightarrow> pystr" where
  "sub_tags U [] = []"
| "sub_tags U (c # cs) =
     (case first_tag U tags (c # cs) of
        Some r \<Rightarrow> 32 # sub_tags U r
      | None \<Rightarrow> c # sub_tags U cs)"
  by pat_completeness auto
termination
  by (relation "measure (\<lambda>(U, s). length s)")
     (auto dest: first_tag_tags_length)

definition strip_tags :: "unicode_db \<Rightarrow> pystr \<Rightarrow> pystr" where
  "strip_tags U s = py_strip U (sub_tags U s)"

subsection \<open>Line 120: title, year and language\<close>

text \<open>
  The pattern is anchored at the start of the text.  The lazy title grows one character at
  a time, never over a line feed, until the rest of the pattern matches.  The rest is
  deterministic: the run of blanks and underscores and the optional parenthesis are
  greedy, and giving any of them back leaves a character that is no digit in front of
  \<open>\d{4}\<close>.  After the year every part is optional, so the first, greedy choice stands.
\<close>

definition languages :: "pystr list" where
  "languages = [u ''Malayalam'', u ''Tamil'', u ''Hindi'', u ''Telugu'', u ''English'']"

fun match_language :: "pystr list \<Rightarrow> pystr \<Rightarrow> pystr option" where
  "match_language [] s = None"
| "match_language (l # ls) s =
     (case match_lit l s of
        Some r \<Rightarrow> Some (take (length l) s)
      | None \<Rightarrow> match_language ls s)"

definition blank_or_underscore :: "unicode_db \<Rightarrow> nat \<Rightarrow> bool" where
  "blank_or_underscore U c = (is_space U c \<or> c = 95)"

definition skip_optional :: "nat \<Rightarrow> pystr \<Rightarrow> pystr" where
  "skip_optional x s = (case s of [] \<Rightarrow> [] | c # cs \<Rightarrow> if c = x then cs else s)"

definition match_year :: "unicode_db \<Rightarrow> pystr \<Rightarrow> (pystr \<times> pystr option) option" where
  "match_year U s =
     (let r = skip_optional 40 (dropWhile (blank_or_underscore U) s) in
      if 4 \<le> length r \<and> list_all (is_decimal U) (take 4 r) then
        Some (take 4 r,
              match_language languages
                (dropWhile (blank_or_underscore U) (skip_optional 41 (drop 4 r))))
      else None)"

fun find_year :: "unicode_db \<Rightarrow> pystr \<Rightarrow> pystr \<Rightarrow> (pystr \<times> pystr \<times> pystr option) option" where
  "find_year U title [] =
     (case match_year U [] of
        Some (y, l) \<Rightarrow> Some (title, y, l)
      | None \<Rightarrow> None)"
| "find_year U title (c # cs) =
     (case match_year U (c # cs) of
        Some (y, l) \<Rightarrow> Some (title, y, l)
      | None \<Rightarrow> if c = 10 then None else find_year U (title @ [c]) cs)"

definition separators :: pystr where
  "separators = u '' -._''"

definition format_name :: "unicode_db \<Rightarrow> pystr \<Rightarrow> pystr" where
  "format_name U filename =
     (case find_year U [] filename of
        Some (title, year, lang) \<Rightarrow>
          (let name = py_strip_chars separators title;
               year' = py_strip U year;
               language = (case lang of Some l \<Rightarrow> py_strip U l | None \<Rightarrow> []);
               cleaned_name = py_strip U (name @ u '' ('' @ year' @ u '') '' @ language)
           in sub_runs (is_space U) cleaned_name)
      | None \<Rightarrow> py_strip_chars separators filename)"

definition step4 :: "unicode_db \<Rightarrow> pystr \<Rightarrow> pystr" where
  \<comment> \<open>the value of \<open>filename\<close> after line 113\<close>
  "step4 U filename = collapse_ws U (strip_non_ascii (strip_prefix U (strip_brackets filename)))"

definition step5 :: "unicode_db \<Rightarrow> pystr \<Rightarrow> pystr" where
  \<comment> \<open>the value of \<open>filename\<close> after line 117\<close>
  "step5 U filename = strip_tags U (step4 U filename)"

definition clean_filename :: "unicode_db \<Rightarrow> pystr \<Rightarrow> pystr" where
  "clean_filename U filename = format_name U (step5 U filename)"

subsection \<open>Notions used to state the properties of the normaliser\<close>

text \<open>
  A text is tidy when it is ASCII, has no underscore, and its only white space is the
  blank: the state of \<open>filename\<close> from line 113 on.
\<close>

definition tidy :: "pystr \<Rightarrow> bool" where
  "tidy s = (\<forall>c \<in> set s. c < 128 \<and> c \<noteq> 95 \<and> (ascii_space c \<longrightarrow> c = 32))"

definition letter :: "nat \<Rightarrow> bool" where
  "letter c = ((65 \<le> c \<and> c \<le> 90) \<or> (97 \<le> c \<and> c \<le> 122))"

text \<open>No two blanks in a row.\<close>

fun single_spaced :: "pystr \<Rightarrow> bool" where
  "single_spaced [] = True"
| "single_spaced [a] = True"
| "single_spaced (a # b # r) = (\<not> (a = 32 \<and> b = 32) \<and> single_spaced (b # r))"

text \<open>
  The result without a match in the words of the specification: the text of step 4,
  before the tags are removed, stripped of trailing separator characters.
\<close>

definition py_rstrip_chars :: "pystr \<Rightarrow> pystr \<Rightarrow> pystr" where
  \<comment> \<open>\<open>s.rstrip(chars)\<close>\<close>
  "py_rstrip_chars cs s = rev (dropWhile (\<lambda>c. c \<in> set cs) (rev s))"

definition spec_no_match_result :: "unicode_db \<Rightarrow> pystr \<Rightarrow> pystr" where
  "spec_no_match_result U filename = py_rstrip_chars separators (step4 U filename)"

text \<open>
  The form \<open>Title (Year) Language\<close> of the specification: the text ends with a blank,
  a year of four digits in parentheses, a blank, and one of the five languages in any
  case; what stands in front is the title.
\<close>

definition title_year_language :: "pystr \<Rightarrow> bool" where
  "title_year_language s =
     list_ex
       (\<lambda>l. length l + 8 \<le> length s
            \<and> map lower (drop (length s - length l) s) = map lower l
            \<and> take 2 (drop (length s - length l - 8) s) = u '' (''
            \<and> list_all ascii_digit (take 4 (drop (length s - length l - 6) s))
            \<and> take 2 (drop (length s - length l - 2) s) = u '') '')
       languages"

text \<open>
  The conditions of an already clean title.  A tag of the denylist occurs in a text where
  the pattern of line 116 matches: one of the words of the denylist, in any case and with
  the digits its alternative asks for, followed by a character that is no word character
  or by the end of the text.  A bracketed group is an opening bracket with a closing
  bracket somewhere after it.
\<close>

fun no_tag_match :: "unicode_db \<Rightarrow> pystr \<Rightarrow> bool" where
  "no_tag_match U [] = True"
| "no_tag_match U (c # cs) = (first_tag U tags (c # cs) = None \<and> no_tag_match U cs)"

fun bracket_free :: "pystr \<Rightarrow> bool" where
  "bracket_free [] = True"
| "bracket_free (c # cs) = (\<not> (c = 91 \<and> 93 \<in> set cs) \<and> bracket_free cs)"

fun no_repeated_space :: "unicode_db \<Rightarrow> pystr \<Rightarrow> bool" where
  "no_repeated_space U [] = True"
| "no_repeated_space U [a] = True"
| "no_repeated_space U (a # b # r) =
     (\<not> (is_space U a \<and> is_space U b) \<and> no_repeated_space U (b # r))"

definition already_clean :: "unicode_db \<Rightarrow> pystr \<Rightarrow> bool" where
  "already_clean U s =
     (no_tag_match U s \<and> bracket_free s \<and> list_all (\<lambda>c. c < 128) s \<and> 95 \<notin> set s
      \<and> (s = [] \<or> is_word U (hd s)) \<and> no_repeated_space U s)"

text \<open>
  The state of \<open>filename\<close> after line 117 for such a title: tidy, without a match of
  the tag pattern, free of brackets, single-spaced, starting with a word character and not
  ending with a blank.
\<close>

definition good :: "unicode_db \<Rightarrow> pystr \<Rightarrow> bool" where
  "good U g =
     (tidy g \<and> no_tag_match U g \<and> bracket_free g \<and> single_spaced g
      \<and> (g = [] \<or> (is_word U (hd g) \<and> last g \<noteq> 32)))"

section \<open>State of the bot and its collaborators\<close>

text \<open>
  The handlers mutate two global dictionaries and the database collection, and they send
  messages.  A handler of the model takes the state and returns the exception that left
  it, if any, together with the state as the mutations made before the exception leave it.

  What the collaborators do is not decided by the program: whether \<open>insert_one\<close> and each
  send succeed, and the identifier \<open>uuid4\<close> returns, are given per event by an \<open>env\<close>.
  A message sent is recorded as a \<open>notice\<close> in the \<open>outbox\<close>; the wording of the
  messages is not modelled.
\<close>

record document =
  file_id :: pystr
  file_name :: pystr

record photo_size =
  photo_file_id :: pystr
  width :: int
  height :: int

record upload_session =
  files :: "document list"
  image :: "photo_size option"
  movie_name :: "pystr option"
  awaiting_name_edit :: bool

record movie_entry =
  movie_id :: pystr
  name :: "pystr option"
  media_documents :: "document list"
  media_image :: "photo_size option"

record delete_session =
  page :: int
  movies :: "movie_entry list"
  selected :: "movie_entry option"

record config =
  ADMIN_IDS :: "int set"
  STORAGE_GROUP_ID :: int
  SEARCH_GROUP_ID :: int

definition PAGE_SIZE :: int where
  "PAGE_SIZE = 10"

datatype py_error =
  AttributeError | TypeError | ValueError | OverflowError | TelegramError | PyMongoError

datatype button = Previous int | Next int | Delete

datatype notice =
    SessionExpired
  | AskNewName
  | NameConfirmed "pystr option"
  | NameUpdated pystr
  | OfferEdit pystr
  | FileReceived pystr
  | ImageReceived
  | MovieAdded "pystr option"
  | AddFailed
  | Preview movie_entry
  | NoMoviesFound "button list"
  | MovieList int "(int \<times> pystr option) list" "button list"
  | NotANumber
  | InvalidNumber
  | ConfirmDelete movie_entry int

datatype site = Answer | Reply | Saved | PreviewSend | Failed

record env =
  uuid4 :: pystr
  insert_ok :: bool
  query_ok :: bool
  send_ok :: "site \<Rightarrow> bool"

record bot_state =
  upload_sessions :: "int \<rightharpoonup> upload_session"
  delete_sessions :: "int \<rightharpoonup> delete_session"
  collection :: "movie_entry list"
  outbox :: "notice list"

type_synonym outcome = "py_error option \<times> bot_state"

definition send :: "env \<Rightarrow> site \<Rightarrow> notice \<Rightarrow> bot_state \<Rightarrow> py_error + bot_state" where
  "send e st n s =
     (if send_ok e st then Inr (s\<lparr>outbox := outbox s @ [n]\<rparr>) else Inl TelegramError)"

definition reply_text ::
  "env \<Rightarrow> bool \<Rightarrow> site \<Rightarrow> notice \<Rightarrow> bot_state \<Rightarrow> py_error + bot_state" where
  \<comment> \<open>\<open>update.message.reply_text(...)\<close>: in the update of a callback query
      \<open>update.message\<close> is \<open>None\<close> (lines 506-509 and 650-655 test for it), and the
      attribute access raises\<close>
  "reply_text e has_message st n s =
     (if has_message then send e st n s else Inl AttributeError)"

definition attempt ::
  "py_error + bot_state \<Rightarrow> bot_state \<Rightarrow> (bot_state \<Rightarrow> outcome) \<Rightarrow> outcome" where
  \<comment> \<open>a call that may raise, outside any \<open>try\<close>: the handler ends with the state so far\<close>
  "attempt r s0 k = (case r of Inl err \<Rightarrow> (Some err, s0) | Inr s' \<Rightarrow> k s')"

definition sanitize_unicode :: "pystr \<Rightarrow> pystr" where
  \<comment> \<open>encoding to UTF-8 with \<open>'ignore'\<close> drops the surrogates\<close>
  "sanitize_unicode s = filter (\<lambda>c. \<not> (55296 \<le> c \<and> c \<le> 57343)) s"

section \<open>Upload sessions\<close>

definition truthy :: "pystr option \<Rightarrow> bool" where
  \<comment> \<open>truth value of a name: \<open>None\<close> and the empty string are false\<close>
  "truthy n = (case n of None \<Rightarrow> False | Some t \<Rightarrow> t \<noteq> [])"

definition complete :: "upload_session \<Rightarrow> bool" where
  \<comment> \<open>line 199: \<open>session['files'] and session['image'] and session['movie_name']\<close>\<close>
  "complete session =
     (files session \<noteq> [] \<and> image session \<noteq> None \<and> truthy (movie_name session))"

definition make_entry :: "env \<Rightarrow> upload_session \<Rightarrow> movie_entry" where
  "make_entry e session =
     \<lparr>movie_id = uuid4 e, name = movie_name session,
      media_documents = files session, media_image = image session\<rparr>"

definition send_preview_to_group :: "env \<Rightarrow> movie_entry \<Rightarrow> bot_state \<Rightarrow> bot_state" where
  \<comment> \<open>lines 242-259: a failed send is caught and logged\<close>
  "send_preview_to_group e m s =
     (case send e PreviewSend (Preview m) s of Inr s' \<Rightarrow> s' | Inl err \<Rightarrow> s)"

definition try_save ::
  "config \<Rightarrow> env \<Rightarrow> bool \<Rightarrow> int \<Rightarrow> movie_entry \<Rightarrow> bot_state \<Rightarrow> bot_state + bot_state" where
  \<comment> \<open>the body of the \<open>try\<close>, lines 214-224; \<open>Inl\<close> is the state at the exception\<close>
  "try_save cfg e has_message user_id m s =
     (if \<not> insert_ok e then Inl s
      else
        (let s1 = s\<lparr>collection := collection s @ [m]\<rparr> in
         case reply_text e has_message Saved (MovieAdded (name m)) s1 of
           Inl err \<Rightarrow> Inl s1
         | Inr s2 \<Rightarrow>
             (let s3 = (if SEARCH_GROUP_ID cfg \<noteq> 0 then send_preview_to_group e m s2 else s2)
              in Inr (s3\<lparr>upload_sessions := (upload_sessions s3)(user_id := None)\<rparr>))))"

definition check_and_save_movie :: "config \<Rightarrow> env \<Rightarrow> bool \<Rightarrow> int \<Rightarrow> bot_state \<Rightarrow> outcome" where
  "check_and_save_movie cfg e has_message user_id s =
     (case upload_sessions s user_id of
        None \<Rightarrow> (None, s)
      | Some session \<Rightarrow>
          if \<not> complete session then (None, s)
          else
            (case try_save cfg e has_message user_id (make_entry e session) s of
               Inr s' \<Rightarrow> (None, s')
             | Inl s' \<Rightarrow>
                 attempt (reply_text e has_message Failed AddFailed s') s' (\<lambda>s''. (None, s''))))"

datatype decision = EditName | ContinueName

definition set_session :: "int \<Rightarrow> upload_session \<Rightarrow> bot_state \<Rightarrow> bot_state" where
  "set_session user_id session s =
     s\<lparr>upload_sessions := (upload_sessions s)(user_id \<mapsto> session)\<rparr>"

definition name_decision_handler :: "config \<Rightarrow> env \<Rightarrow> int \<Rightarrow> decision \<Rightarrow> bot_state \<Rightarrow> outcome" where
  \<comment> \<open>the update is that of a callback query: the replies go to \<open>query.message\<close>, and
      \<open>check_and_save_movie\<close> receives an update without \<open>message\<close>\<close>
  "name_decision_handler cfg e user_id d s =
     (if \<not> send_ok e Answer then (Some TelegramError, s)
      else
        (case upload_sessions s user_id of
           None \<Rightarrow> attempt (send e Reply SessionExpired s) s (\<lambda>s'. (None, s'))
         | Some session \<Rightarrow>
             (case d of
                EditName \<Rightarrow>
                  (let s1 = set_session user_id (session\<lparr>awaiting_name_edit := True\<rparr>) s
                   in attempt (send e Reply AskNewName s1) s1 (\<lambda>s'. (None, s')))
              | ContinueName \<Rightarrow>
                  (let s1 = set_session user_id (session\<lparr>awaiting_name_edit := False\<rparr>) s
                   in attempt (send e Reply (NameConfirmed (movie_name session)) s1) s1
                        (check_and_save_movie cfg e False user_id)))))"

definition text_handler ::
  "config \<Rightarrow> unicode_db \<Rightarrow> env \<Rightarrow> int \<Rightarrow> int \<Rightarrow> pystr \<Rightarrow> bot_state \<Rightarrow> outcome" where
  "text_handler cfg U e chat_id user_id text s =
     (if chat_id \<noteq> STORAGE_GROUP_ID cfg then (None, s)
      else
        (case upload_sessions s user_id of
           None \<Rightarrow> (None, s)
         | Some session \<Rightarrow>
             if awaiting_name_edit session then
               (let new_name = sanitize_unicode (py_strip U text);
                    s1 = set_session user_id
                           (session\<lparr>movie_name := Some new_name, awaiting_name_edit := False\<rparr>) s
                in attempt (reply_text e True Reply (NameUpdated new_name) s1) s1
                     (check_and_save_movie cfg e True user_id))
             else (None, s)))"

record message =
  msg_document :: "(pystr \<times> pystr option) option"  \<comment> \<open>file id and file name, which Telegram may omit\<close>
  msg_photo :: "photo_size list"

definition area :: "photo_size \<Rightarrow> int" where
  "area p = width p * height p"

fun largest :: "photo_size \<Rightarrow> photo_size list \<Rightarrow> photo_size" where
  \<comment> \<open>\<open>max(image_info, key=...)\<close>: the first of the largest\<close>
  "largest best [] = best"
| "largest best (p # ps) = largest (if area best < area p then p else best) ps"

definition new_session :: upload_session where
  "new_session = \<lparr>files = [], image = None, movie_name = None, awaiting_name_edit = False\<rparr>"

definition add_movie ::
  "config \<Rightarrow> unicode_db \<Rightarrow> env \<Rightarrow> int \<Rightarrow> int \<Rightarrow> message \<Rightarrow> bot_state \<Rightarrow> outcome" where
  "add_movie cfg U e chat_id user_id msg s =
     (if chat_id \<noteq> STORAGE_GROUP_ID cfg then (None, s)
      else
        (let session = (case upload_sessions s user_id of Some x \<Rightarrow> x | None \<Rightarrow> new_session);
             s0 = set_session user_id session s
         in case msg_document msg of
              Some (fid, fname) \<Rightarrow>
                (case fname of
                   None \<Rightarrow> (Some TypeError, s0)
                 | Some raw \<Rightarrow>
                     (let cleaned_name = clean_filename U raw;
                          session1 = session\<lparr>files := files session
                                        @ [\<lparr>file_id = fid, file_name = cleaned_name\<rparr>]\<rparr>;
                          session2 = (if \<not> truthy (movie_name session1)
                                      then session1\<lparr>movie_name := Some cleaned_name\<rparr>
                                      else session1);
                          s1 = set_session user_id session2 s
                      in if user_id \<in> ADMIN_IDS cfg then
                           attempt (reply_text e True Reply (OfferEdit cleaned_name) s1) s1
                             (\<lambda>s'. (None, s'))
                         else
                           attempt (reply_text e True Reply (FileReceived cleaned_name) s1) s1
                             (check_and_save_movie cfg e True user_id)))
            | None \<Rightarrow>
                (case msg_photo msg of
                   [] \<Rightarrow> (None, s0)
                 | p # ps \<Rightarrow>
                     (let largest_photo = largest p ps;
                          session1 = session\<lparr>image := Some largest_photo\<rparr>;
                          s1 = set_session user_id session1 s
                      in attempt (reply_text e True Reply ImageReceived s1) s1
                           (\<lambda>s'. if user_id \<notin> ADMIN_IDS cfg \<or> \<not> awaiting_name_edit session1
                                 then check_and_save_movie cfg e True user_id s'
                                 else (None, s'))))))"

text \<open>
  The operations of an upload session as events.  A run handles the events one after the
  other; an exception that leaves a handler is caught by the dispatcher, and the next event
  finds the state as the handler left it.
\<close>

datatype event =
    ReceiveMessage int message      \<comment> \<open>a document or a photo in the storage group\<close>
  | NameDecision int decision       \<comment> \<open>one of the two buttons pressed\<close>
  | SubmitText int int pystr        \<comment> \<open>user, chat and text of a text message\<close>

fun handle :: "config \<Rightarrow> unicode_db \<Rightarrow> env \<Rightarrow> event \<Rightarrow> bot_state \<Rightarrow> outcome" where
  "handle cfg U e (ReceiveMessage user_id msg) s =
     add_movie cfg U e (STORAGE_GROUP_ID cfg) user_id msg s"
| "handle cfg U e (NameDecision user_id d) s = name_decision_handler cfg e user_id d s"
| "handle cfg U e (SubmitText user_id chat_id text) s =
     text_handler cfg U e chat_id user_id text s"

fun run :: "config \<Rightarrow> unicode_db \<Rightarrow> (env \<times> event) list \<Rightarrow> bot_state \<Rightarrow> bot_state" where
  "run cfg U [] s = s"
| "run cfg U ((e, ev) # evs) s = run cfg U evs (snd (handle cfg U e ev s))"

definition initial :: bot_state where
  "initial = \<lparr>upload_sessions = Map.empty, delete_sessions = Map.empty,
              collection = [], outbox = []\<rparr>"

section \<open>Delete sessions\<close>

subsection \<open>Lines 605-655: \<open>list_movies\<close>\<close>

definition sorted_by_name :: "movie_entry list \<Rightarrow> movie_entry list" where
  \<comment> \<open>\<open>collection.find({}).sort("name", 1)\<close>: ascending by name, code point by code
      point, a record without name first.  The database leaves the order of records with
      equal names open; the model keeps them in the order of insertion.\<close>
  "sorted_by_name ms = sort_key name ms"

definition nav :: "int \<Rightarrow> int \<Rightarrow> int \<Rightarrow> button list" where
  \<comment> \<open>lines 635-639\<close>
  "nav pg skip total_count =
     (if pg > 1 then [Previous (pg - 1)] else [])
     @ (if skip + PAGE_SIZE < total_count then [Next (pg + 1)] else [])"

definition numbered :: "int \<Rightarrow> movie_entry list \<Rightarrow> (int \<times> pystr option) list" where
  \<comment> \<open>\<open>enumerate(movies, start=skip + 1)\<close>\<close>
  "numbered skip ms = zip (map (\<lambda>i. skip + 1 + int i) [0..<length ms]) (map name ms)"

definition list_movies :: "config \<Rightarrow> env \<Rightarrow> int \<Rightarrow> int option \<Rightarrow> bot_state \<Rightarrow> outcome" where
  \<comment> \<open>\<open>arg\<close> is the first argument of the command, read as an integer (a text that
      is no integer raises \<open>ValueError\<close> before anything happens).  The cursor
      refuses a negative \<open>skip\<close> with \<open>ValueError\<close>, and the query, which is sent
      when \<open>list\<close> reads the cursor at line 613, cannot encode a \<open>skip\<close> beyond the
      signed integers of 64 bits: that raises \<open>OverflowError\<close>.  Both leave the handler
      before line 628 stores the session and before anything is sent.\<close>
  "list_movies cfg e user_id arg s =
     (if user_id \<notin> ADMIN_IDS cfg then (None, s)
      else
        (let pg = (case arg of Some p \<Rightarrow> p | None \<Rightarrow> 1);
             skip = (pg - 1) * PAGE_SIZE
         in if \<not> query_ok e then (Some PyMongoError, s)
            else
              (let total_count = int (length (collection s)) in
               if skip < 0 then (Some ValueError, s)
               else if 2 ^ 63 \<le> skip then (Some OverflowError, s)
               else
                 (let ms = take (nat PAGE_SIZE) (drop (nat skip) (sorted_by_name (collection s)));
                      keyboard = nav pg skip total_count @ [Delete];
                      s1 = s\<lparr>delete_sessions := (delete_sessions s)
                             (user_id \<mapsto> \<lparr>page = pg, movies = ms, selected = None\<rparr>)\<rparr>
                  in attempt
                       (send e Reply
                          (if ms = [] then NoMoviesFound keyboard
                           else MovieList total_count (numbered skip ms) keyboard) s1)
                       s1 (\<lambda>s'. (None, s'))))))"

subsection \<open>Lines 677-728: \<open>delete_by_number\<close>\<close>

definition py_isdigit :: "unicode_db \<Rightarrow> pystr \<Rightarrow> bool" where
  \<comment> \<open>\<open>text.isdigit()\<close>: not empty, and every character is a digit\<close>
  "py_isdigit U t =
     (t \<noteq> [] \<and> list_all (\<lambda>c. if c < 128 then ascii_digit c else u_digit U c) t)"

definition digit_value :: "unicode_db \<Rightarrow> nat \<Rightarrow> nat option" where
  "digit_value U c =
     (if c < 128 then (if ascii_digit c then Some (c - 48) else None) else u_decimal U c)"

fun int_digits :: "unicode_db \<Rightarrow> nat \<Rightarrow> pystr \<Rightarrow> nat option" where
  "int_digits U acc [] = Some acc"
| "int_digits U acc (c # cs) =
     (case digit_value U c of
        None \<Rightarrow> None
      | Some d \<Rightarrow> int_digits U (10 * acc + d) cs)"

definition py_int :: "unicode_db \<Rightarrow> pystr \<Rightarrow> nat option" where
  \<comment> \<open>\<open>int(text)\<close> on a text of digits; \<open>None\<close> is \<open>ValueError\<close>: a digit that is
      no decimal digit, or more than 4300 digits (the limit of the interpreter on the
      conversion, which no Telegram message reaches: a message has at most 4096
      characters)\<close>
  "py_int U t = (if t = [] \<or> 4300 < length t then None else int_digits U 0 t)"

definition delete_by_number ::
  "config \<Rightarrow> unicode_db \<Rightarrow> env \<Rightarrow> int \<Rightarrow> pystr option \<Rightarrow> bot_state \<Rightarrow> outcome" where
  "delete_by_number cfg U e user_id msg_text s =
     (if user_id \<notin> ADMIN_IDS cfg then (None, s)
      else
        (case msg_text of
           None \<Rightarrow> (None, s)
         | Some raw \<Rightarrow>
             if raw = [] then (None, s)
             else
               (case delete_sessions s user_id of
                  None \<Rightarrow> (None, s)
                | Some session \<Rightarrow>
                    (let text = py_strip U raw in
                     if \<not> py_isdigit U text then
                       attempt (reply_text e True Reply NotANumber s) s (\<lambda>s'. (None, s'))
                     else
                       (case py_int U text of
                          None \<Rightarrow> (Some ValueError, s)
                        | Some n \<Rightarrow>
                            (let index = int n - 1 in
                             if index < 0 \<or> index \<ge> int (length (movies session)) then
                               attempt (reply_text e True Reply InvalidNumber s) s
                                 (\<lambda>s'. (None, s'))
                             else
                               (let movie = movies session ! nat index;
                                    s1 = s\<lparr>delete_sessions := (delete_sessions s)
                                           (user_id \<mapsto> session\<lparr>selected := Some movie\<rparr>)\<rparr>
                                in attempt
                                     (reply_text e True Reply
                                        (ConfirmDelete movie (page session)) s1)
                                     s1 (\<lambda>s'. (None, s')))))))))"

definition superscript_db :: unicode_db where
  \<comment> \<open>the part of the Unicode database that concerns the superscripts two, three and one
      (code points 178, 179 and 185): alphanumeric, digits to \<open>str.isdigit\<close>, and no
      decimal digits\<close>
  "superscript_db =
     \<lparr>u_alnum = (\<lambda>c. c = 178 \<or> c = 179 \<or> c = 185), u_space = (\<lambda>c. False),
      u_digit = (\<lambda>c. c = 178 \<or> c = 179 \<or> c = 185), u_decimal = (\<lambda>c. None)\<rparr>"


fun user_of :: "event \<Rightarrow> int" where
  "user_of (ReceiveMessage user_id msg) = user_id"
| "user_of (NameDecision user_id d) = user_id"
| "user_of (SubmitText user_id chat_id text) = user_id"





subsection \<open>Concrete inputs\<close>

definition ascii_db :: unicode_db where
  \<comment> \<open>a database that classifies nothing beyond ASCII; the examples are ASCII texts\<close>
  "ascii_db = \<lparr>u_alnum = (\<lambda>c. False), u_space = (\<lambda>c. False),
               u_digit = (\<lambda>c. False), u_decimal = (\<lambda>c. None)\<rparr>"

definition example_config :: config where
  "example_config = \<lparr>ADMIN_IDS = {1}, STORAGE_GROUP_ID = - 100, SEARCH_GROUP_ID = - 200\<rparr>"

definition env_ok :: env where
  "env_ok = \<lparr>uuid4 = u ''id-1'', insert_ok = True, query_ok = True, send_ok = (\<lambda>st. True)\<rparr>"

definition env_db_down :: env where
  "env_db_down = \<lparr>uuid4 = u ''id-2'', insert_ok = False, query_ok = False, send_ok = (\<lambda>st. True)\<rparr>"

definition a_document :: message where
  "a_document =
     \<lparr>msg_document = Some (u ''doc-1'', Some (u ''Movie 2021.mkv'')), msg_photo = []\<rparr>"

definition a_poster :: photo_size where
  "a_poster = \<lparr>photo_file_id = u ''img-1'', width = 320, height = 480\<rparr>"

definition a_photo :: message where
  "a_photo = \<lparr>msg_document = None, msg_photo = [a_poster]\<rparr>"

definition a_file :: document where
  "a_file = \<lparr>file_id = u ''doc-1'', file_name = u ''Movie (2021)''\<rparr>"

definition complete_session :: upload_session where
  "complete_session =
     \<lparr>files = [a_file], image = Some a_poster, movie_name = Some (u ''Movie (2021)''),
      awaiting_name_edit = False\<rparr>"

definition admin_ready :: bot_state where
  \<comment> \<open>the admin 1 has sent a poster and then a document\<close>
  "admin_ready = initial\<lparr>upload_sessions := [1 \<mapsto> complete_session],
                         outbox := [ImageReceived, OfferEdit (u ''Movie (2021)'')]\<rparr>"


definition bracket_document :: message where
  "bracket_document = \<lparr>msg_document = Some (u ''doc-0'', Some (u ''[CK]'')), msg_photo = []\<rparr>"

definition empty_session :: upload_session where
  "empty_session =
     \<lparr>files = [\<lparr>file_id = u ''doc-0'', file_name = []\<rparr>], image = Some a_poster,
      movie_name = Some [], awaiting_name_edit = False\<rparr>"

definition empty_named :: bot_state where
  "empty_named = initial\<lparr>upload_sessions := [1 \<mapsto> empty_session]\<rparr>"

definition library :: "movie_entry list" where
  "library =
     map (\<lambda>i. \<lparr>movie_id = [48 + i], name = Some [89 - i], media_documents = [],
               media_image = None\<rparr>) [0..<25]"

definition library_state :: bot_state where
  "library_state = initial\<lparr>collection := library\<rparr>"

definition listing_state :: bot_state where
  \<comment> \<open>the admin 1 has listed the first page of the library\<close>
  "listing_state =
     library_state\<lparr>delete_sessions :=
       [1 \<mapsto> \<lparr>page = 1, movies = take 10 (sorted_by_name library), selected = None\<rparr>]\<rparr>"

section \<open>Properties of the upload sessions\<close>

lemma check_and_save_movie_collection:
  "collection (snd (check_and_save_movie cfg e hm uid s)) =
     (case upload_sessions s uid of
        None \<Rightarrow> collection s
      | Some session \<Rightarrow>
          if complete session \<and> insert_ok e then collection s @ [make_entry e session]
          else collection s)"
  by (auto simp: check_and_save_movie_def try_save_def attempt_def reply_text_def send_def
        send_preview_to_group_def Let_def split: option.splits sum.splits if_splits)

lemma check_and_save_movie_sessions:
  "upload_sessions (snd (check_and_save_movie cfg e hm uid s)) =
     (case upload_sessions s uid of
        None \<Rightarrow> upload_sessions s
      | Some session \<Rightarrow>
          if complete session \<and> insert_ok e \<and> hm \<and> send_ok e Saved
          then (upload_sessions s)(uid := None)
          else upload_sessions s)"
  by (auto simp: check_and_save_movie_def try_save_def attempt_def reply_text_def send_def
        send_preview_to_group_def Let_def split: option.splits sum.splits if_splits)

lemma handle_collection:
  "collection (snd (handle cfg U e ev s)) = collection s \<or>
   (\<exists>session. complete session \<and> insert_ok e
       \<and> (user_of ev \<in> ADMIN_IDS cfg \<longrightarrow> \<not> awaiting_name_edit session)
       \<and> collection (snd (handle cfg U e ev s)) = collection s @ [make_entry e session])"
proof (cases ev)
  case (ReceiveMessage uid msg)
  show ?thesis
    unfolding ReceiveMessage handle.simps user_of.simps add_movie_def Let_def attempt_def
    by (auto simp: check_and_save_movie_collection reply_text_def send_def set_session_def
        split: option.splits sum.splits list.splits if_splits prod.splits)
next
  case (NameDecision uid d)
  show ?thesis
    unfolding NameDecision handle.simps user_of.simps name_decision_handler_def Let_def
      attempt_def
    by (auto simp: check_and_save_movie_collection send_def set_session_def
        split: option.splits sum.splits if_splits decision.splits)
next
  case (SubmitText uid chat body)
  show ?thesis
    unfolding SubmitText handle.simps user_of.simps text_handler_def Let_def attempt_def
    by (auto simp: check_and_save_movie_collection reply_text_def send_def set_session_def
        split: option.splits sum.splits if_splits)
qed

lemma admin_ready_reachable:
  "upload_sessions
     (run example_config ascii_db
        [(env_ok, ReceiveMessage 1 a_photo), (env_ok, ReceiveMessage 1 a_document)] initial) 1
     = upload_sessions admin_ready 1
   \<and> collection
       (run example_config ascii_db
          [(env_ok, ReceiveMessage 1 a_photo), (env_ok, ReceiveMessage 1 a_document)] initial)
     = collection admin_ready
   \<and> outbox
       (run example_config ascii_db
          [(env_ok, ReceiveMessage 1 a_photo), (env_ok, ReceiveMessage 1 a_document)] initial)
     = outbox admin_ready"
  by code_simp






lemma failed_insert_keeps_sessions:
  "\<not> insert_ok e \<Longrightarrow>
     upload_sessions (snd (check_and_save_movie cfg e hm uid s)) = upload_sessions s
     \<and> collection (snd (check_and_save_movie cfg e hm uid s)) = collection s"
  by (simp add: check_and_save_movie_sessions check_and_save_movie_collection
        split: option.splits)

lemma failed_insert_notice:
  "upload_sessions s uid = Some session \<Longrightarrow> complete session \<Longrightarrow> \<not> insert_ok e \<Longrightarrow>
   send_ok e Failed \<Longrightarrow>
     check_and_save_movie cfg e True uid s = (None, s\<lparr>outbox := outbox s @ [AddFailed]\<rparr>)"
  by (simp add: check_and_save_movie_def try_save_def attempt_def reply_text_def send_def)

text \<open>
  C2 on the code.  When the insert fails the session and the collection stay as they are,
  and an evaluation started by a message sends the failure notice (the two lemmas above).
  An evaluation started by the button \<open>continue_name\<close> sends none: the update of a
  callback query has no \<open>message\<close>, so the reply in the \<open>except\<close> branch raises
  \<open>AttributeError\<close>, and the handler ends with that exception.
\<close>

theorem no_failure_notice_on_continue:
  assumes "upload_sessions s uid = Some session" and "complete session"
    and "\<not> insert_ok e" and "send_ok e Answer" and "send_ok e Reply"
  shows "name_decision_handler cfg e uid ContinueName s =
     (Some AttributeError,
      s\<lparr>upload_sessions := (upload_sessions s)(uid \<mapsto> session\<lparr>awaiting_name_edit := False\<rparr>),
        outbox := outbox s @ [NameConfirmed (movie_name session)]\<rparr>)"
  using assms
  by (simp add: name_decision_handler_def check_and_save_movie_def try_save_def attempt_def
        reply_text_def send_def set_session_def complete_def Let_def)

theorem no_failure_notice_on_continue_witness:
  "fst (name_decision_handler example_config env_db_down 1 ContinueName admin_ready)
     = Some AttributeError
   \<and> outbox (snd (name_decision_handler example_config env_db_down 1 ContinueName admin_ready))
     = [ImageReceived, OfferEdit (u ''Movie (2021)''), NameConfirmed (Some (u ''Movie (2021)''))]
   \<and> collection (snd (name_decision_handler example_config env_db_down 1 ContinueName admin_ready))
     = []
   \<and> upload_sessions
       (snd (name_decision_handler example_config env_db_down 1 ContinueName admin_ready)) 1
     = Some complete_session"
proof -
  have 1: "upload_sessions admin_ready 1 = Some complete_session"
    by (simp add: admin_ready_def)
  have 2: "complete complete_session"
    by (simp add: complete_def complete_session_def truthy_def u_def)
  have 3: "\<not> insert_ok env_db_down" "send_ok env_db_down Answer" "send_ok env_db_down Reply"
    by (simp_all add: env_db_down_def)
  show ?thesis
    unfolding no_failure_notice_on_continue [OF 1 2 3]
    by (simp add: admin_ready_def initial_def complete_session_def)
qed

text \<open>
  C3 on the code.  When the button \<open>continue_name\<close> starts the evaluation of a complete
  session and the insert succeeds, the record is in the collection, the confirmation
  raises \<open>AttributeError\<close> (the update has no \<open>message\<close>), the \<open>except\<close> branch
  is taken, and the session stays in \<open>upload_sessions\<close>.
\<close>

theorem session_survives_insert_on_continue:
  assumes "upload_sessions s uid = Some session" and "complete session"
    and "insert_ok e" and "send_ok e Answer" and "send_ok e Reply"
  shows "name_decision_handler cfg e uid ContinueName s =
     (Some AttributeError,
      s\<lparr>upload_sessions := (upload_sessions s)(uid \<mapsto> session\<lparr>awaiting_name_edit := False\<rparr>),
        outbox := outbox s @ [NameConfirmed (movie_name session)],
        collection := collection s @ [make_entry e (session\<lparr>awaiting_name_edit := False\<rparr>)]\<rparr>)"
  using assms
  by (simp add: name_decision_handler_def check_and_save_movie_def try_save_def attempt_def
        reply_text_def send_def set_session_def complete_def Let_def)

theorem session_survives_insert_on_continue_witness:
  "fst (name_decision_handler example_config env_ok 1 ContinueName admin_ready)
     = Some AttributeError
   \<and> collection (snd (name_decision_handler example_config env_ok 1 ContinueName admin_ready))
     = [\<lparr>movie_id = u ''id-1'', name = Some (u ''Movie (2021)''),
         media_documents = [a_file], media_image = Some a_poster\<rparr>]
   \<and> upload_sessions
       (snd (name_decision_handler example_config env_ok 1 ContinueName admin_ready)) 1
     = Some complete_session"
proof -
  have 1: "upload_sessions admin_ready 1 = Some complete_session"
    by (simp add: admin_ready_def)
  have 2: "complete complete_session"
    by (simp add: complete_def complete_session_def truthy_def u_def)
  have 3: "insert_ok env_ok" "send_ok env_ok Answer" "send_ok env_ok Reply"
    by (simp_all add: env_ok_def)
  show ?thesis
    unfolding session_survives_insert_on_continue [OF 1 2 3]
    by (simp add: admin_ready_def initial_def complete_session_def make_entry_def env_ok_def)
qed

text \<open>Pressing the button again inserts the same session a second time.\<close>

lemma repeated_continue_inserts_twice:
  "map movie_id (collection
     (run example_config ascii_db
        [(env_ok, ReceiveMessage 1 a_photo), (env_ok, ReceiveMessage 1 a_document),
         (env_ok, NameDecision 1 ContinueName),
         (env_ok\<lparr>uuid4 := u ''id-3''\<rparr>, NameDecision 1 ContinueName)] initial))
   = [u ''id-1'', u ''id-3'']"
  by code_simp

text \<open>A session leaves \<open>upload_sessions\<close> only in an event that inserted its record.\<close>

lemma handle_sessions:
  "upload_sessions s uid = Some session \<Longrightarrow>
   upload_sessions (snd (handle cfg U e ev s)) uid = None \<Longrightarrow>
     uid = user_of ev \<and> insert_ok e \<and> send_ok e Saved
     \<and> collection (snd (handle cfg U e ev s)) \<noteq> collection s"
proof (cases ev)
  case (ReceiveMessage u' msg)
  assume "upload_sessions s uid = Some session"
    "upload_sessions (snd (handle cfg U e ev s)) uid = None"
  then show ?thesis
    unfolding ReceiveMessage handle.simps user_of.simps add_movie_def Let_def attempt_def
    by (auto simp: check_and_save_movie_collection check_and_save_movie_sessions
        reply_text_def send_def set_session_def
        split: option.splits sum.splits list.splits if_splits prod.splits)
next
  case (NameDecision u' d)
  assume "upload_sessions s uid = Some session"
    "upload_sessions (snd (handle cfg U e ev s)) uid = None"
  then show ?thesis
    unfolding NameDecision handle.simps user_of.simps name_decision_handler_def Let_def
      attempt_def
    by (auto simp: check_and_save_movie_collection check_and_save_movie_sessions
          send_def set_session_def
        split: option.splits sum.splits if_splits decision.splits)
next
  case (SubmitText u' chat body)
  assume "upload_sessions s uid = Some session"
    "upload_sessions (snd (handle cfg U e ev s)) uid = None"
  then show ?thesis
    unfolding SubmitText handle.simps user_of.simps text_handler_def Let_def attempt_def
    by (auto simp: check_and_save_movie_collection check_and_save_movie_sessions
        reply_text_def send_def set_session_def
        split: option.splits sum.splits if_splits)
qed

lemma add_movie_sets_name:
  assumes "upload_sessions s uid = Some session"
    and "movie_name session = None \<or> movie_name session = Some []"
  shows "case upload_sessions
           (snd (add_movie cfg U e (STORAGE_GROUP_ID cfg) uid
                  \<lparr>msg_document = Some (fid, Some raw), msg_photo = ph\<rparr> s)) uid of
           Some session' \<Rightarrow> movie_name session' = Some (clean_filename U raw)
         | None \<Rightarrow>
             \<exists>m. name m = Some (clean_filename U raw)
               \<and> collection
                   (snd (add_movie cfg U e (STORAGE_GROUP_ID cfg) uid
                          \<lparr>msg_document = Some (fid, Some raw), msg_photo = ph\<rparr> s))
                 = collection s @ [m]"
  using assms unfolding add_movie_def Let_def attempt_def
  by (auto simp: check_and_save_movie_collection check_and_save_movie_sessions
        reply_text_def send_def set_session_def truthy_def make_entry_def
        split: option.splits sum.splits if_splits)

lemma handle_named:
  assumes "list_all (\<lambda>m. name m \<noteq> None \<and> name m \<noteq> Some []) (collection s)"
  shows "list_all (\<lambda>m. name m \<noteq> None \<and> name m \<noteq> Some []) (collection (snd (handle cfg U e ev s)))"
  using handle_collection [of cfg U e ev s] assms
  by (auto simp: complete_def truthy_def make_entry_def split: option.splits)

lemma run_named:
  "list_all (\<lambda>m. name m \<noteq> None \<and> name m \<noteq> Some []) (collection s) \<Longrightarrow>
   list_all (\<lambda>m. name m \<noteq> None \<and> name m \<noteq> Some []) (collection (run cfg U evs s))"
proof (induction evs arbitrary: s)
  case Nil
  then show ?case by simp
next
  case (Cons x evs)
  obtain e ev where x: "x = (e, ev)" by (cases x)
  from Cons.prems have "list_all (\<lambda>m. name m \<noteq> None \<and> name m \<noteq> Some [])
      (collection (snd (handle cfg U e ev s)))"
    by (rule handle_named)
  then show ?case unfolding x run.simps by (rule Cons.IH)
qed

text \<open>
  C10.  A document that arrives while the name of the session is unset or empty sets the
  name to the normalised file name: the session holds that name afterwards, or it was
  persisted under it in the same event.  A session whose name is the empty string is not
  complete, and its evaluation changes nothing.  Hence the names of the records in the
  collection stay non-empty through every run.
\<close>

theorem empty_name_counts_as_unset:
  "(upload_sessions s uid = Some session \<longrightarrow>
    (movie_name session = None \<or> movie_name session = Some []) \<longrightarrow>
      (case upload_sessions
           (snd (add_movie cfg U e (STORAGE_GROUP_ID cfg) uid
                  \<lparr>msg_document = Some (fid, Some raw), msg_photo = ph\<rparr> s)) uid of
         Some session' \<Rightarrow> movie_name session' = Some (clean_filename U raw)
       | None \<Rightarrow>
           \<exists>m. name m = Some (clean_filename U raw)
             \<and> collection
                 (snd (add_movie cfg U e (STORAGE_GROUP_ID cfg) uid
                        \<lparr>msg_document = Some (fid, Some raw), msg_photo = ph\<rparr> s))
               = collection s @ [m]))
   \<and> (upload_sessions s uid = Some session \<longrightarrow> movie_name session = Some [] \<longrightarrow>
        \<not> complete session \<and> check_and_save_movie cfg e hm uid s = (None, s))
   \<and> (list_all (\<lambda>m. name m \<noteq> None \<and> name m \<noteq> Some []) (collection s) \<longrightarrow>
        list_all (\<lambda>m. name m \<noteq> None \<and> name m \<noteq> Some []) (collection (run cfg U evs s)))"
proof (intro conjI impI)
  assume "upload_sessions s uid = Some session"
    and "movie_name session = None \<or> movie_name session = Some []"
  then show "case upload_sessions
           (snd (add_movie cfg U e (STORAGE_GROUP_ID cfg) uid
                  \<lparr>msg_document = Some (fid, Some raw), msg_photo = ph\<rparr> s)) uid of
         Some session' \<Rightarrow> movie_name session' = Some (clean_filename U raw)
       | None \<Rightarrow>
           \<exists>m. name m = Some (clean_filename U raw)
             \<and> collection
                 (snd (add_movie cfg U e (STORAGE_GROUP_ID cfg) uid
                        \<lparr>msg_document = Some (fid, Some raw), msg_photo = ph\<rparr> s))
               = collection s @ [m]"
    by (rule add_movie_sets_name)
next
  assume "movie_name session = Some []"
  then show "\<not> complete session" by (simp add: complete_def truthy_def)
next
  assume "upload_sessions s uid = Some session" and "movie_name session = Some []"
  then show "check_and_save_movie cfg e hm uid s = (None, s)"
    by (simp add: check_and_save_movie_def complete_def truthy_def)
next
  assume "list_all (\<lambda>m. name m \<noteq> None \<and> name m \<noteq> Some []) (collection s)"
  then show "list_all (\<lambda>m. name m \<noteq> None \<and> name m \<noteq> Some []) (collection (run cfg U evs s))"
    by (rule run_named)
qed

lemma empty_named_reachable:
  "upload_sessions (run example_config ascii_db
      [(env_ok, ReceiveMessage 1 bracket_document), (env_ok, ReceiveMessage 1 a_photo)] initial) 1
   = upload_sessions empty_named 1"
  by code_simp

theorem empty_name_counts_as_unset_witness:
  "(case upload_sessions
           (snd (add_movie example_config ascii_db env_ok (STORAGE_GROUP_ID example_config) 1
                  \<lparr>msg_document = Some (u ''doc-1'', Some (u ''Movie 2021.mkv'')), msg_photo = []\<rparr>
                  empty_named)) 1 of
         Some session' \<Rightarrow> movie_name session' = Some (clean_filename ascii_db (u ''Movie 2021.mkv''))
       | None \<Rightarrow>
           \<exists>m. name m = Some (clean_filename ascii_db (u ''Movie 2021.mkv''))
             \<and> collection
                 (snd (add_movie example_config ascii_db env_ok (STORAGE_GROUP_ID example_config) 1
                        \<lparr>msg_document = Some (u ''doc-1'', Some (u ''Movie 2021.mkv'')), msg_photo = []\<rparr>
                        empty_named))
               = collection empty_named @ [m])
   \<and> check_and_save_movie example_config env_ok True 1 empty_named = (None, empty_named)
   \<and> list_all (\<lambda>m. name m \<noteq> None \<and> name m \<noteq> Some [])
       (collection (run example_config ascii_db
          [(env_ok, ReceiveMessage 1 bracket_document), (env_ok, ReceiveMessage 1 a_photo),
           (env_ok, ReceiveMessage 7 a_document), (env_ok, ReceiveMessage 7 a_photo)] initial))"
proof -
  have 1: "upload_sessions empty_named 1 = Some empty_session"
    by (simp add: empty_named_def)
  have 2: "movie_name empty_session = Some []"
    by (simp add: empty_session_def)
  have 3: "list_all (\<lambda>m. name m \<noteq> None \<and> name m \<noteq> Some []) (collection initial)"
    by (simp add: initial_def)
  from 1 2 3
    empty_name_counts_as_unset [where s = empty_named and uid = 1 and session = empty_session
      and cfg = example_config and U = ascii_db and e = env_ok and hm = True
      and fid = "u ''doc-1''" and raw = "u ''Movie 2021.mkv''" and ph = "[]"]
    empty_name_counts_as_unset [where s = initial and cfg = example_config and U = ascii_db
      and evs = "[(env_ok, ReceiveMessage 1 bracket_document), (env_ok, ReceiveMessage 1 a_photo),
           (env_ok, ReceiveMessage 7 a_document), (env_ok, ReceiveMessage 7 a_photo)]"]
  show ?thesis by blast
qed
section \<open>Properties of the delete sessions\<close>

lemma sorted_by_name_sorted:
  "sorted (map name (sorted_by_name ms)) \<and> mset (sorted_by_name ms) = mset ms"
  by (simp add: sorted_by_name_def)

lemma list_movies_result:
  assumes "uid \<in> ADMIN_IDS cfg" and "query_ok e" and "send_ok e Reply" and "1 \<le> p"
    and "(p - 1) * 10 < 2 ^ 63"
  shows "list_movies cfg e uid (Some p) s =
     (None,
      s\<lparr>delete_sessions := (delete_sessions s)
           (uid \<mapsto> \<lparr>page = p,
                     movies = take 10 (drop (nat ((p - 1) * 10)) (sorted_by_name (collection s))),
                     selected = None\<rparr>),
        outbox := outbox s @
          [if take 10 (drop (nat ((p - 1) * 10)) (sorted_by_name (collection s))) = []
           then NoMoviesFound (nav p ((p - 1) * 10) (int (length (collection s))) @ [Delete])
           else MovieList (int (length (collection s)))
                  (numbered ((p - 1) * 10)
                     (take 10 (drop (nat ((p - 1) * 10)) (sorted_by_name (collection s)))))
                  (nav p ((p - 1) * 10) (int (length (collection s))) @ [Delete])]\<rparr>)"
  using assms
  by (simp add: list_movies_def PAGE_SIZE_def Let_def attempt_def send_def not_le [symmetric])

lemma nav_buttons:
  "(Next (p + 1) \<in> set (nav p skip n) \<longleftrightarrow> skip + PAGE_SIZE < n)
   \<and> (Previous (p - 1) \<in> set (nav p skip n) \<longleftrightarrow> 1 < p)"
  by (simp add: nav_def)

lemma nav_25:
  "nav 1 0 25 = [Next 2] \<and> nav 3 20 25 = [Previous 2]"
  by (simp add: nav_def PAGE_SIZE_def)

lemma numbered_labels:
  "map fst (numbered skip ms) = map (\<lambda>i. skip + 1 + int i) [0..<length ms]"
  by (simp add: numbered_def)

lemma labels_10: "map (\<lambda>i. 0 + 1 + int i) [0..<10] = [1, 2, 3, 4, 5, 6, 7, 8, 9, 10]"
  by (simp add: upt_rec)

lemma labels_5: "map (\<lambda>i. 20 + 1 + int i) [0..<5] = [21, 22, 23, 24, 25]"
  by (simp add: upt_rec)

text \<open>
  C8, as the code has it.  For an admin and a page number from 1 on whose
  \<open>skip = (page - 1) * PAGE_SIZE\<close> is below \<open>2 ^ 63\<close>, \<open>list_movies\<close> skips
  \<open>skip\<close> records of the collection sorted by name, shows and caches the next
  \<open>PAGE_SIZE\<close>, offers the next page exactly when \<open>skip + PAGE_SIZE < total\<close> and the
  previous page exactly when \<open>page > 1\<close>.  With 25 records page 1 shows the first ten,
  numbered 1 to 10, with the next page only; page 3 shows the last five, numbered 21 to
  25, with the previous page only.
\<close>

theorem list_movies_pagination:
  fixes p :: int
  defines "skip \<equiv> (p - 1) * PAGE_SIZE"
  defines "shown \<equiv> \<lambda>s. take (nat PAGE_SIZE) (drop (nat skip) (sorted_by_name (collection s)))"
  defines "keyboard \<equiv> \<lambda>s. nav p skip (int (length (collection s))) @ [Delete]"
  assumes "uid \<in> ADMIN_IDS cfg" and "query_ok e" and "send_ok e Reply" and "1 \<le> p"
    and "(p - 1) * PAGE_SIZE < 2 ^ 63"
  shows "list_movies cfg e uid (Some p) s =
           (None,
            s\<lparr>delete_sessions := (delete_sessions s)
                 (uid \<mapsto> \<lparr>page = p, movies = shown s, selected = None\<rparr>),
              outbox := outbox s @
                [if shown s = [] then NoMoviesFound (keyboard s)
                 else MovieList (int (length (collection s))) (numbered skip (shown s))
                        (keyboard s)]\<rparr>)
         \<and> sorted (map name (sorted_by_name (collection s)))
         \<and> mset (sorted_by_name (collection s)) = mset (collection s)
         \<and> (Next (p + 1) \<in> set (keyboard s) \<longleftrightarrow> skip + PAGE_SIZE < int (length (collection s)))
         \<and> (Previous (p - 1) \<in> set (keyboard s) \<longleftrightarrow> 1 < p)
         \<and> (length (collection s) = 25 \<longrightarrow> p = 1 \<longrightarrow>
               shown s = take 10 (sorted_by_name (collection s))
               \<and> map fst (numbered skip (shown s)) = [1, 2, 3, 4, 5, 6, 7, 8, 9, 10]
               \<and> keyboard s = [Next 2, Delete])
         \<and> (length (collection s) = 25 \<longrightarrow> p = 3 \<longrightarrow>
               shown s = drop 20 (sorted_by_name (collection s))
               \<and> map fst (numbered skip (shown s)) = [21, 22, 23, 24, 25]
               \<and> keyboard s = [Previous 2, Delete])"
proof (intro conjI impI)
  show "list_movies cfg e uid (Some p) s =
           (None,
            s\<lparr>delete_sessions := (delete_sessions s)
                 (uid \<mapsto> \<lparr>page = p, movies = shown s, selected = None\<rparr>),
              outbox := outbox s @
                [if shown s = [] then NoMoviesFound (keyboard s)
                 else MovieList (int (length (collection s))) (numbered skip (shown s))
                        (keyboard s)]\<rparr>)"
    using assms(4-8) list_movies_result [of uid cfg e p s]
    by (simp add: skip_def shown_def keyboard_def PAGE_SIZE_def)
  show "sorted (map name (sorted_by_name (collection s)))"
    and "mset (sorted_by_name (collection s)) = mset (collection s)"
    by (simp_all add: sorted_by_name_sorted)
  show "Next (p + 1) \<in> set (keyboard s) \<longleftrightarrow> skip + PAGE_SIZE < int (length (collection s))"
    and "Previous (p - 1) \<in> set (keyboard s) \<longleftrightarrow> 1 < p"
    by (simp_all add: keyboard_def nav_buttons)
next
  assume len: "length (collection s) = 25" and p: "p = 1"
  then show "shown s = take 10 (sorted_by_name (collection s))"
    by (simp add: shown_def skip_def PAGE_SIZE_def)
  from len p have "length (shown s) = 10"
    by (simp add: shown_def skip_def PAGE_SIZE_def sorted_by_name_def)
  with p show "map fst (numbered skip (shown s)) = [1, 2, 3, 4, 5, 6, 7, 8, 9, 10]"
    using labels_10 by (simp add: numbered_labels skip_def)
  from len p show "keyboard s = [Next 2, Delete]"
    using nav_25 by (simp add: keyboard_def skip_def PAGE_SIZE_def)
next
  assume len: "length (collection s) = 25" and p: "p = 3"
  then show "shown s = drop 20 (sorted_by_name (collection s))"
    by (simp add: shown_def skip_def PAGE_SIZE_def sorted_by_name_def)
  from len p have "length (shown s) = 5"
    by (simp add: shown_def skip_def PAGE_SIZE_def sorted_by_name_def)
  with p show "map fst (numbered skip (shown s)) = [21, 22, 23, 24, 25]"
    using labels_5 by (simp add: numbered_labels skip_def PAGE_SIZE_def)
  from len p show "keyboard s = [Previous 2, Delete]"
    using nav_25 by (simp add: keyboard_def skip_def PAGE_SIZE_def)
qed

lemma library_page_3:
  "map name (drop 20 (sorted_by_name library)) = [Some (u ''U''), Some (u ''V''), Some (u ''W''), Some (u ''X''), Some (u ''Y'')]
  \<and> length library = 25"
  by code_simp

theorem list_movies_pagination_witness:
  "fst (list_movies example_config env_ok 1 (Some 3) library_state) = None
   \<and> outbox (snd (list_movies example_config env_ok 1 (Some 3) library_state))
       = [MovieList 25 (numbered 20 (drop 20 (sorted_by_name library))) [Previous 2, Delete]]
   \<and> map fst (numbered 20 (drop 20 (sorted_by_name library))) = [21, 22, 23, 24, 25]
   \<and> map snd (numbered 20 (drop 20 (sorted_by_name library)))
       = [Some (u ''U''), Some (u ''V''), Some (u ''W''), Some (u ''X''), Some (u ''Y'')]"
proof -
  have a: "1 \<in> ADMIN_IDS example_config" "query_ok env_ok" "send_ok env_ok Reply" "(1::int) \<le> 3"
    "(3 - 1) * PAGE_SIZE < 2 ^ 63"
    by (simp_all add: example_config_def env_ok_def PAGE_SIZE_def)
  have len: "length (collection library_state) = 25" "collection library_state = library"
    "outbox library_state = []"
    by (simp_all add: library_state_def library_def initial_def)
  have names: "map name (drop 20 (sorted_by_name library))
       = [Some (u ''U''), Some (u ''V''), Some (u ''W''), Some (u ''X''), Some (u ''Y'')]"
    using library_page_3 by simp
  have nonempty: "drop 20 (sorted_by_name library) \<noteq> []"
    using names by auto
  have snd_numbered: "map snd (numbered 20 (drop 20 (sorted_by_name library)))
      = map name (drop 20 (sorted_by_name library))"
    by (simp add: numbered_def)
  have tk: "take 10 (drop 20 (sorted_by_name library)) = drop 20 (sorted_by_name library)"
    by (simp add: sorted_by_name_def library_def)
  from list_movies_pagination [OF a, of library_state] len names nonempty snd_numbered
  show ?thesis
    by (simp add: PAGE_SIZE_def tk)
qed

text \<open>
  C8 as stated fails for the page numbers whose \<open>skip\<close> does not fit 64 bits: the admin
  sends \<open>/list\<close> with the page \<open>10 ^ 30\<close>.  The query raises \<open>OverflowError\<close>; no page
  is shown, no button is offered and no session is stored.
\<close>

theorem list_movies_skip_beyond_64_bits:
  "(1::int) \<le> 1000000000000000000000000000000
   \<and> 1 \<in> ADMIN_IDS example_config \<and> query_ok env_ok \<and> send_ok env_ok Reply
   \<and> list_movies example_config env_ok 1 (Some 1000000000000000000000000000000) library_state
       = (Some OverflowError, library_state)
   \<and> outbox library_state = [] \<and> delete_sessions library_state 1 = None"
  by (simp add: list_movies_def example_config_def env_ok_def PAGE_SIZE_def Let_def
        library_state_def initial_def)

text \<open>
  What \<open>delete_by_number\<close> does with a text of ASCII digits, and with a text that
  \<open>isdigit\<close> rejects: the number is accepted exactly when it lies between 1 and the
  length of the cached page, the record at that place of the cache is selected, and every
  other text is answered with a message and changes nothing else.
\<close>

lemma int_digits_ascii:
  "list_all ascii_digit t \<Longrightarrow> \<exists>n. int_digits U acc t = Some n"
  by (induction t arbitrary: acc) (auto simp: digit_value_def ascii_digit_def)

lemma ascii_isdigit: "t \<noteq> [] \<Longrightarrow> list_all ascii_digit t \<Longrightarrow> py_isdigit U t"
  by (auto simp: py_isdigit_def list_all_iff ascii_digit_def)

lemma delete_by_number_ascii:
  assumes "uid \<in> ADMIN_IDS cfg" and "delete_sessions s uid = Some session"
    and "raw \<noteq> []" and "py_strip U raw \<noteq> []" and "list_all ascii_digit (py_strip U raw)"
    and "length (py_strip U raw) \<le> 4300" and "send_ok e Reply"
  shows "\<exists>n. py_int U (py_strip U raw) = Some n \<and>
     delete_by_number cfg U e uid (Some raw) s =
       (if 1 \<le> n \<and> n \<le> length (movies session) then
          (None,
           s\<lparr>delete_sessions := (delete_sessions s)
                (uid \<mapsto> session\<lparr>selected := Some (movies session ! (n - 1))\<rparr>),
             outbox := outbox s @ [ConfirmDelete (movies session ! (n - 1)) (page session)]\<rparr>)
        else (None, s\<lparr>outbox := outbox s @ [InvalidNumber]\<rparr>))"
proof -
  from int_digits_ascii [OF assms(5), of U 0] obtain n
    where n: "int_digits U 0 (py_strip U raw) = Some n" by blast
  with assms(4,6) have pi: "py_int U (py_strip U raw) = Some n"
    by (simp add: py_int_def)
  have dg: "py_isdigit U (py_strip U raw)"
    using assms(4,5) by (rule ascii_isdigit)
  have idx: "nat (int n - 1) = n - 1" by simp
  show ?thesis
    using assms(1,2,3,7) pi dg
    by (auto simp: delete_by_number_def Let_def attempt_def reply_text_def send_def idx
        intro!: exI [of _ n])
qed

lemma delete_by_number_not_digits:
  assumes "uid \<in> ADMIN_IDS cfg" and "delete_sessions s uid = Some session"
    and "raw \<noteq> []" and "\<not> py_isdigit U (py_strip U raw)" and "send_ok e Reply"
  shows "delete_by_number cfg U e uid (Some raw) s =
           (None, s\<lparr>outbox := outbox s @ [NotANumber]\<rparr>)"
  using assms
  by (simp add: delete_by_number_def Let_def attempt_def reply_text_def send_def)

text \<open>
  C7 on the code.  \<open>str.isdigit\<close> accepts characters that \<open>int\<close> refuses: a
  superscript two (code point 178) is a digit and no decimal digit.  The text passes the
  test of line 695, \<open>int(text)\<close> at line 699 raises \<open>ValueError\<close>, and the handler
  ends without any message.
\<close>

theorem delete_by_number_superscript:
  assumes "uid \<in> ADMIN_IDS cfg" and "delete_sessions s uid = Some session"
    and "u_digit U 178" and "u_decimal U 178 = None" and "\<not> u_space U 178"
  shows "py_isdigit U [178] \<and> delete_by_number cfg U e uid (Some [178]) s = (Some ValueError, s)"
  using assms
  by (simp add: delete_by_number_def Let_def py_strip_def is_space_def py_isdigit_def
        py_int_def digit_value_def)

theorem delete_by_number_superscript_witness:
  "py_isdigit superscript_db [178]
   \<and> delete_by_number example_config superscript_db env_ok 1 (Some [178]) listing_state
     = (Some ValueError, listing_state)"
proof -
  have "1 \<in> ADMIN_IDS example_config"
    and "delete_sessions listing_state 1
      = Some \<lparr>page = 1, movies = take 10 (sorted_by_name library), selected = None\<rparr>"
    and "u_digit superscript_db 178" and "u_decimal superscript_db 178 = None"
    and "\<not> u_space superscript_db 178"
    by (simp_all add: example_config_def listing_state_def superscript_db_def)
  then show ?thesis by (rule delete_by_number_superscript)
qed

lemma listing_state_reachable:
  "delete_sessions (snd (list_movies example_config env_ok 1 None library_state)) 1
     = delete_sessions listing_state 1"
  by (simp add: list_movies_def example_config_def env_ok_def Let_def PAGE_SIZE_def
        attempt_def send_def listing_state_def library_state_def initial_def)

section \<open>Properties of the filename normaliser\<close>

lemma set_py_strip: "set (py_strip U s) \<subseteq> set s"
  unfolding py_strip_def by (auto dest!: set_dropWhileD)

lemma set_py_strip_chars: "set (py_strip_chars cs s) \<subseteq> set s"
  unfolding py_strip_chars_def by (auto dest!: set_dropWhileD)

lemma set_sub_runs: "set (sub_runs p s) \<subseteq> insert 32 {c \<in> set s. \<not> p c}"
  by (induction p s rule: sub_runs.induct) (auto dest: set_dropWhileD)

lemma set_match_lit: "match_lit p s = Some r \<Longrightarrow> set r \<subseteq> set s"
  by (induction p s rule: match_lit.induct) (auto split: if_splits)

lemma set_match_digits: "match_digits U d s = Some r \<Longrightarrow> set r \<subseteq> set s"
  by (auto simp: match_digits_def split: digits.splits list.splits if_splits
      dest: set_dropWhileD)

lemma set_match_end: "match_end U s = Some r \<Longrightarrow> set r \<subseteq> set s"
  by (auto simp: match_end_def split: list.splits if_splits)

lemma set_match_tag: "match_tag U t s = Some r \<Longrightarrow> set r \<subseteq> set s"
  by (auto simp: match_tag_def split: option.splits
      dest!: set_match_lit set_match_digits set_match_end)

lemma set_first_tag: "first_tag U ts s = Some r \<Longrightarrow> set r \<subseteq> set s"
  by (induction ts) (auto split: option.splits dest: set_match_tag)

lemma set_sub_tags: "set (sub_tags U s) \<subseteq> insert 32 (set s)"
proof (induction U s rule: sub_tags.induct)
  case (1 U)
  then show ?case by simp
next
  case (2 U c cs)
  show ?case
  proof (cases "first_tag U tags (c # cs)")
    case None
    with 2 show ?thesis by auto
  next
    case (Some r)
    with 2 set_first_tag [OF Some] show ?thesis by auto
  qed
qed

lemma set_skip_optional: "set (skip_optional x s) \<subseteq> set s"
  by (cases s) (auto simp: skip_optional_def)

lemma set_match_language: "match_language ls s = Some l \<Longrightarrow> set l \<subseteq> set s"
  by (induction ls) (auto split: option.splits dest: in_set_takeD)

lemma set_match_year:
  assumes "match_year U s = Some (y, l)"
  shows "set y \<subseteq> set s \<and> (\<forall>l'. l = Some l' \<longrightarrow> set l' \<subseteq> set s)"
proof -
  let ?r = "skip_optional 40 (dropWhile (blank_or_underscore U) s)"
  have r: "set ?r \<subseteq> set s"
    using set_skip_optional [of 40 "dropWhile (blank_or_underscore U) s"]
    by (auto dest: set_dropWhileD)
  from assms have y: "y = take 4 ?r"
    and l: "l = match_language languages
                (dropWhile (blank_or_underscore U) (skip_optional 41 (drop 4 ?r)))"
    by (auto simp: match_year_def Let_def split: if_splits)
  have "set (dropWhile (blank_or_underscore U) (skip_optional 41 (drop 4 ?r))) \<subseteq> set s"
    using set_skip_optional [of 41 "drop 4 ?r"] r
    by (auto dest!: set_dropWhileD in_set_dropD)
  with l have "\<forall>l'. l = Some l' \<longrightarrow> set l' \<subseteq> set s"
    using set_match_language by (metis order_trans)
  moreover from y r have "set y \<subseteq> set s"
    by (auto dest: in_set_takeD)
  ultimately show ?thesis by simp
qed

lemma set_find_year:
  "find_year U t s = Some (t', y, l) \<Longrightarrow>
     set t' \<subseteq> set t \<union> set s \<and> set y \<subseteq> set s \<and> (\<forall>l'. l = Some l' \<longrightarrow> set l' \<subseteq> set s)"
proof (induction U t s rule: find_year.induct)
  case (1 U title)
  then show ?case
    using set_match_year [of U "[]"] by (auto split: option.splits)
next
  case (2 U title c cs)
  show ?case
  proof (cases "match_year U (c # cs)")
    case None
    with 2 show ?thesis by (auto split: if_splits)
  next
    case (Some yl)
    then obtain y0 l0 where yl: "yl = (y0, l0)" by (cases yl)
    with 2 Some set_match_year [of U "c # cs" y0 l0] show ?thesis by auto
  qed
qed

lemma set_format_name: "set (format_name U s) \<subseteq> set s \<union> {32, 40, 41}"
proof (cases "find_year U [] s")
  case None
  then show ?thesis
    using set_py_strip_chars [of separators s] by (auto simp: format_name_def)
next
  case (Some r)
  then obtain t y l where r: "r = (t, y, l)" by (cases r)
  from Some r set_find_year [of U "[]" s t y l]
  have t: "set t \<subseteq> set s" and y: "set y \<subseteq> set s"
    and l: "\<forall>l'. l = Some l' \<longrightarrow> set l' \<subseteq> set s" by auto
  have lang: "set (case l of Some l' \<Rightarrow> py_strip U l' | None \<Rightarrow> []) \<subseteq> set s"
    using l set_py_strip by (fastforce split: option.splits)
  let ?X = "py_strip_chars separators t @ u '' ('' @ py_strip U y @ u '') ''
          @ (case l of Some l' \<Rightarrow> py_strip U l' | None \<Rightarrow> [])"
  have X: "set ?X \<subseteq> set s \<union> {32, 40, 41}"
    using t y lang set_py_strip_chars [of separators t] set_py_strip [of U y]
    by (auto simp: u_def)
  have "set (sub_runs (is_space U) (py_strip U ?X)) \<subseteq> insert 32 (set (py_strip U ?X))"
    using set_sub_runs [of "is_space U" "py_strip U ?X"] by blast
  also have "\<dots> \<subseteq> insert 32 (set ?X)"
    using set_py_strip [of U ?X] by blast
  also have "\<dots> \<subseteq> set s \<union> {32, 40, 41}"
    using X by blast
  finally have "set (sub_runs (is_space U) (py_strip U ?X)) \<subseteq> set s \<union> {32, 40, 41}" .
  moreover have "format_name U s = sub_runs (is_space U) (py_strip U ?X)"
    using Some r by (simp add: format_name_def Let_def)
  ultimately show ?thesis by simp
qed

text \<open>
  C9.  The result of \<open>clean_filename\<close> has no character beyond ASCII: line 110 removes
  them all, and the later steps add blanks and parentheses only.
\<close>

theorem clean_filename_ascii: "\<forall>c \<in> set (clean_filename U filename). c < 128"
proof -
  let ?a = "strip_non_ascii (strip_prefix U (strip_brackets filename))"
  have a: "set ?a \<subseteq> {c. c < 128}"
    by (auto simp: strip_non_ascii_def)
  have "set (step4 U filename) \<subseteq> set (sub_runs (\<lambda>c. c = 95 \<or> is_space U c) ?a)"
    unfolding step4_def collapse_ws_def by (rule set_py_strip)
  also have "\<dots> \<subseteq> insert 32 (set ?a)"
    using set_sub_runs [of "\<lambda>c. c = 95 \<or> is_space U c" ?a] by blast
  finally have 4: "set (step4 U filename) \<subseteq> {c. c < 128}"
    using a by auto
  have "set (step5 U filename) \<subseteq> set (sub_tags U (step4 U filename))"
    unfolding step5_def strip_tags_def by (rule set_py_strip)
  also have "\<dots> \<subseteq> insert 32 (set (step4 U filename))"
    by (rule set_sub_tags)
  finally have 5: "set (step5 U filename) \<subseteq> {c. c < 128}"
    using 4 by auto
  have "set (clean_filename U filename) \<subseteq> set (step5 U filename) \<union> {32, 40, 41}"
    unfolding clean_filename_def by (rule set_format_name)
  with 5 show ?thesis by auto
qed

lemma tidy_subset: "tidy s \<Longrightarrow> set r \<subseteq> insert 32 (set s) \<Longrightarrow> tidy r"
  by (auto simp: tidy_def ascii_space_def)

lemma step4_tidy: "tidy (step4 U filename)"
proof -
  let ?a = "strip_non_ascii (strip_prefix U (strip_brackets filename))"
  let ?p = "\<lambda>c. c = 95 \<or> is_space U c"
  have "set (step4 U filename) \<subseteq> set (sub_runs ?p ?a)"
    unfolding step4_def collapse_ws_def by (rule set_py_strip)
  also have "\<dots> \<subseteq> insert 32 {c \<in> set ?a. \<not> ?p c}"
    by (rule set_sub_runs)
  finally have *: "set (step4 U filename) \<subseteq> insert 32 {c \<in> set ?a. \<not> ?p c}" .
  show ?thesis
    unfolding tidy_def
  proof
    fix c assume "c \<in> set (step4 U filename)"
    with * have "c = 32 \<or> (c \<in> set ?a \<and> \<not> ?p c)" by auto
    then show "c < 128 \<and> c \<noteq> 95 \<and> (ascii_space c \<longrightarrow> c = 32)"
      by (auto simp: strip_non_ascii_def is_space_def)
  qed
qed

lemma step5_tidy: "tidy (step5 U filename)"
proof -
  have "set (step5 U filename) \<subseteq> set (sub_tags U (step4 U filename))"
    unfolding step5_def strip_tags_def by (rule set_py_strip)
  also have "\<dots> \<subseteq> insert 32 (set (step4 U filename))"
    by (rule set_sub_tags)
  finally show ?thesis
    using step4_tidy tidy_subset by blast
qed

lemma find_year_prefix:
  "find_year U t0 s = Some (t, y, l) \<Longrightarrow>
     \<exists>pre rest. t = t0 @ pre \<and> s = pre @ rest \<and> match_year U rest = Some (y, l)"
proof (induction U t0 s rule: find_year.induct)
  case (1 U title)
  then show ?case by (auto split: option.splits)
next
  case (2 U title c cs)
  show ?case
  proof (cases "match_year U (c # cs)")
    case (Some yl)
    with 2 show ?thesis by (cases yl) auto
  next
    case None
    with 2 have ne: "c \<noteq> 10" and rec: "find_year U (title @ [c]) cs = Some (t, y, l)"
      by (auto split: if_splits)
    from "2.IH" [OF None ne rec] obtain pre rest
      where "t = (title @ [c]) @ pre" "cs = pre @ rest" "match_year U rest = Some (y, l)"
      by blast
    then have "t = title @ (c # pre) \<and> c # cs = (c # pre) @ rest \<and> match_year U rest = Some (y, l)"
      by simp
    then show ?thesis by blast
  qed
qed

lemma match_year_year:
  "match_year U s = Some (y, l) \<Longrightarrow> length y = 4 \<and> list_all (is_decimal U) y"
  by (auto simp: match_year_def Let_def split: if_splits)

lemma match_lit_take:
  "match_lit p s = Some r \<Longrightarrow>
     length (take (length p) s) = length p \<and> list_all2 ieq p (take (length p) s)"
  by (induction p s rule: match_lit.induct) (auto split: if_splits)

lemma match_language_lang:
  "match_language ls s = Some l \<Longrightarrow> \<exists>lg \<in> set ls. length l = length lg \<and> list_all2 ieq lg l"
  by (induction ls) (auto split: option.splits dest: match_lit_take)

lemma match_year_lang:
  "match_year U s = Some (y, Some l) \<Longrightarrow>
     \<exists>lg \<in> set languages. length l = length lg \<and> list_all2 ieq lg l"
  by (auto simp: match_year_def Let_def split: if_splits dest: match_language_lang)

lemma languages_letters: "\<forall>lg \<in> set languages. lg \<noteq> [] \<and> list_all letter lg"
  by (simp add: languages_def u_def letter_def)

lemma ieq_letter: "letter p \<Longrightarrow> ieq p c \<Longrightarrow> letter c"
  by (auto simp: ieq_def lower_def letter_def split: if_splits)

lemma list_all2_ieq_letters: "list_all2 ieq lg l \<Longrightarrow> list_all letter lg \<Longrightarrow> list_all letter l"
  by (induction rule: list_all2_induct) (auto dest: ieq_letter)

lemma list_all2_ieq_lower: "list_all2 ieq lg l \<Longrightarrow> map lower l = map lower lg"
  by (induction rule: list_all2_induct) (auto simp: ieq_def)

lemma sub_runs_clean: "\<forall>c \<in> set z. \<not> p c \<Longrightarrow> sub_runs p (z @ w) = z @ sub_runs p w"
  by (induction z) auto

lemma sub_runs_clean': "\<forall>c \<in> set z. \<not> p c \<Longrightarrow> sub_runs p z = z"
  using sub_runs_clean [of z p "[]"] by simp

lemma sub_runs_blank: "p c \<Longrightarrow> w = [] \<or> \<not> p (hd w) \<Longrightarrow> sub_runs p (c # w) = 32 # sub_runs p w"
  by (cases w) auto

lemma last_dropWhile: "dropWhile P xs \<noteq> [] \<Longrightarrow> last (dropWhile P xs) = last xs"
proof -
  assume ne: "dropWhile P xs \<noteq> []"
  then have "last (takeWhile P xs @ dropWhile P xs) = last (dropWhile P xs)"
    by (rule last_appendR)
  then show ?thesis by simp
qed

lemma dropWhile_hd_id: "s \<noteq> [] \<Longrightarrow> \<not> P (hd s) \<Longrightarrow> dropWhile P s = s"
  by (cases s) auto

lemma sub_runs_append:
  "a \<noteq> [] \<Longrightarrow> \<not> p (last a) \<Longrightarrow> sub_runs p (a @ b) = sub_runs p a @ sub_runs p b"
proof (induction p a rule: sub_runs.induct)
  case (1 p)
  then show ?case by simp
next
  case (2 p c cs)
  show ?case
  proof (cases "p c")
    case False
    show ?thesis
    proof (cases "cs = []")
      case True
      with False show ?thesis by simp
    next
      case ne: False
      with 2 False show ?thesis by simp
    qed
  next
    case True
    with "2.prems" have ne: "cs \<noteq> []" and last: "\<not> p (last cs)" by (auto split: if_splits)
    then have mem: "last cs \<in> set cs" by simp
    from mem last have dw: "dropWhile p (cs @ b) = dropWhile p cs @ b"
      by (rule dropWhile_append1)
    from mem last have ne': "dropWhile p cs \<noteq> []" by auto
    then have last': "last (dropWhile p cs) = last cs"
      by (rule last_dropWhile)
    from "2.IH"(1) [OF True ne'] last last'
    have "sub_runs p (dropWhile p cs @ b) = sub_runs p (dropWhile p cs) @ sub_runs p b" by simp
    with True dw show ?thesis by simp
  qed
qed

lemma sub_runs_hd: "sub_runs p s \<noteq> [] \<Longrightarrow> s \<noteq> [] \<and> (if p (hd s) then hd (sub_runs p s) = 32 else hd (sub_runs p s) = hd s)"
  by (cases s) auto

lemma hd_dropWhile_not: "dropWhile p s \<noteq> [] \<Longrightarrow> \<not> p (hd (dropWhile p s))"
  using hd_dropWhile by blast

lemma single_spaced_sub_runs: "p 32 \<Longrightarrow> single_spaced (sub_runs p s)"
proof (induction p s rule: sub_runs.induct)
  case (1 p)
  then show ?case by simp
next
  case (2 p c cs)
  show ?case
  proof (cases "p c")
    case True
    let ?d = "dropWhile p cs"
    from 2 True have ih: "single_spaced (sub_runs p ?d)" by simp
    show ?thesis
    proof (cases "sub_runs p ?d")
      case Nil
      with True show ?thesis by simp
    next
      case (Cons x xs)
      then have dne: "?d \<noteq> []" using sub_runs_hd [of p ?d] by simp
      then have "\<not> p (hd ?d)" by (rule hd_dropWhile_not)
      with Cons sub_runs_hd [of p ?d] have "x = hd ?d" by auto
      with \<open>\<not> p (hd ?d)\<close> 2(3) have "x \<noteq> 32" by auto
      with True Cons ih show ?thesis by simp
    qed
  next
    case False
    with 2 have ih: "single_spaced (sub_runs p cs)" and c: "c \<noteq> 32" by auto
    then show ?thesis using False by (cases "sub_runs p cs") auto
  qed
qed

lemma py_strip_id: "s = [] \<or> (\<not> is_space U (hd s) \<and> \<not> is_space U (last s)) \<Longrightarrow> py_strip U s = s"
proof (cases s rule: rev_cases)
  case Nil
  then show ?thesis by (simp add: py_strip_def)
next
  case (snoc ys y)
  assume "s = [] \<or> (\<not> is_space U (hd s) \<and> \<not> is_space U (last s))"
  with snoc have h: "\<not> is_space U (hd s)" and l: "\<not> is_space U y" by auto
  from snoc have "s \<noteq> []" by simp
  from this h have "dropWhile (is_space U) s = s" by (rule dropWhile_hd_id)
  with snoc l show ?thesis by (simp add: py_strip_def)
qed

lemma py_strip_chars_ends:
  "py_strip_chars cs s = [] \<or>
   (hd (py_strip_chars cs s) \<notin> set cs \<and> last (py_strip_chars cs s) \<notin> set cs)"
proof -
  let ?P = "\<lambda>c. c \<in> set cs"
  let ?a = "dropWhile ?P s"
  let ?b = "dropWhile ?P (rev ?a)"
  show ?thesis
  proof (cases "?b = []")
    case True
    then have "py_strip_chars cs s = []" by (simp only: py_strip_chars_def rev.simps)
    then show ?thesis by (rule disjI1)
  next
    case False
    then have hb: "\<not> ?P (hd ?b)" by (rule hd_dropWhile_not)
    from False have ane: "?a \<noteq> []" by (auto dest: set_dropWhileD)
    then have ha: "\<not> ?P (hd ?a)" by (rule hd_dropWhile_not)
    from False have "last ?b = last (rev ?a)" by (rule last_dropWhile)
    with ane have lb: "last ?b = hd ?a" by (simp add: last_rev)
    from False have "hd (rev ?b) = last ?b" by (simp add: hd_rev)
    with lb ha have 1: "hd (rev ?b) \<notin> set cs" by simp
    from False hb have 2: "last (rev ?b) \<notin> set cs" by (simp add: last_rev)
    from 1 2 show ?thesis by (simp only: py_strip_chars_def) simp
  qed
qed

lemma py_strip_both:
  assumes "s \<noteq> []" and "\<not> is_space U (hd s)" and "\<not> is_space U (last s)"
    and "\<forall>c \<in> set a. is_space U c" and "\<forall>c \<in> set b. is_space U c"
  shows "py_strip U (a @ s @ b) = s"
proof -
  have "dropWhile (is_space U) (a @ s @ b) = dropWhile (is_space U) (s @ b)"
    using assms(4) by (simp add: dropWhile_append2)
  also have "\<dots> = s @ b"
    using assms(1,2) by (intro dropWhile_hd_id) auto
  finally have 1: "dropWhile (is_space U) (a @ s @ b) = s @ b" .
  have "dropWhile (is_space U) (rev b @ rev s) = dropWhile (is_space U) (rev s)"
    using assms(5) by (intro dropWhile_append2) simp
  then have "dropWhile (is_space U) (rev (s @ b)) = dropWhile (is_space U) (rev s)"
    by simp
  also have "\<dots> = rev s"
    using assms(1,3) by (intro dropWhile_hd_id) (auto simp: hd_rev)
  finally show ?thesis
    using 1 by (simp add: py_strip_def)
qed

lemma sub_runs_Nil: "sub_runs p s = [] \<longleftrightarrow> s = []"
  by (cases s) auto

lemma last_sub_runs: "s \<noteq> [] \<Longrightarrow> \<not> p (last s) \<Longrightarrow> last (sub_runs p s) = last s"
proof (induction p s rule: sub_runs.induct)
  case (1 p)
  then show ?case by simp
next
  case (2 p c cs)
  show ?case
  proof (cases "p c")
    case True
    with "2.prems" have ne: "cs \<noteq> []" and last: "\<not> p (last cs)" by (auto split: if_splits)
    then have mem: "last cs \<in> set cs" by simp
    from mem last have ne': "dropWhile p cs \<noteq> []" by auto
    then have last': "last (dropWhile p cs) = last cs" by (rule last_dropWhile)
    from "2.IH"(1) [OF True ne'] last last'
    have "last (sub_runs p (dropWhile p cs)) = last cs" by simp
    moreover from ne' have "sub_runs p (dropWhile p cs) \<noteq> []" by (simp only: sub_runs_Nil not_False_eq_True)
    ultimately show ?thesis using True ne by simp
  next
    case False
    show ?thesis
    proof (cases "cs = []")
      case True
      with False show ?thesis by simp
    next
      case ne: False
      with 2 False have "last (sub_runs p cs) = last cs" by simp
      moreover from ne have "sub_runs p cs \<noteq> []" by (simp only: sub_runs_Nil not_False_eq_True)
      ultimately show ?thesis using False ne by simp
    qed
  qed
qed

lemma hd_sub_runs: "s \<noteq> [] \<Longrightarrow> \<not> p (hd s) \<Longrightarrow> hd (sub_runs p s) = hd s"
  by (cases s) auto

lemma tidy_space: "tidy s \<Longrightarrow> c \<in> set s \<Longrightarrow> is_space U c \<longleftrightarrow> c = 32"
  by (auto simp: tidy_def is_space_def ascii_space_def)

lemma digit_not_space: "c < 128 \<Longrightarrow> is_decimal U c \<Longrightarrow> \<not> is_space U c \<and> ascii_digit c"
  by (auto simp: is_decimal_def is_space_def ascii_digit_def ascii_space_def)

lemma letter_not_space: "letter c \<Longrightarrow> \<not> is_space U c"
  by (auto simp: letter_def is_space_def ascii_space_def)

lemma paren_not_space: "\<not> is_space U 40" "\<not> is_space U 41" "is_space U 32" "(32::nat) \<in> set separators"
  by (auto simp: is_space_def ascii_space_def separators_def u_def)

lemma format_name_match:
  assumes tidy: "tidy s" and fy: "find_year U [] s = Some (t, y, lang)"
  shows "format_name U s =
           (if py_strip_chars separators t = [] then []
            else sub_runs (is_space U) (py_strip_chars separators t) @ [32])
           @ [40] @ y @ [41] @ (case lang of None \<Rightarrow> [] | Some l \<Rightarrow> 32 # l)
         \<and> length y = 4 \<and> list_all ascii_digit y
         \<and> (\<forall>l. lang = Some l \<longrightarrow> l \<noteq> [] \<and> list_all letter l
               \<and> (\<exists>lg \<in> set languages. map lower l = map lower lg))
         \<and> (py_strip_chars separators t \<noteq> [] \<longrightarrow>
               \<not> is_space U (hd (py_strip_chars separators t))
               \<and> \<not> is_space U (last (py_strip_chars separators t)))"
proof -
  let ?p = "is_space U"
  let ?name = "py_strip_chars separators t"
  let ?L = "case lang of None \<Rightarrow> [] | Some l \<Rightarrow> l"
  from find_year_prefix [OF fy] obtain rest
    where s: "s = t @ rest" and my: "match_year U rest = Some (y, lang)" by auto
  from set_find_year [OF fy] have ys: "set y \<subseteq> set s" by simp
  from match_year_year [OF my] have ylen: "length y = 4" and ydec: "list_all (is_decimal U) y"
    by simp_all
  have ydig: "\<forall>c \<in> set y. \<not> ?p c \<and> ascii_digit c"
    using ys ydec tidy digit_not_space [of _ U] by (auto simp: tidy_def list_all_iff)
  then have yasc: "list_all ascii_digit y" by (simp add: list_all_iff)
  from ylen have yne: "y \<noteq> []" by auto
  have ystrip: "py_strip U y = y"
    using yne ydig by (intro py_strip_id) (simp add: hd_in_set)
  have lang: "\<forall>l. lang = Some l \<longrightarrow> l \<noteq> [] \<and> list_all letter l
               \<and> (\<exists>lg \<in> set languages. map lower l = map lower lg)"
  proof (intro allI impI)
    fix l assume "lang = Some l"
    with my match_year_lang [of U rest y l] obtain lg
      where lg: "lg \<in> set languages" "length l = length lg" "list_all2 ieq lg l" by auto
    with languages_letters have "lg \<noteq> []" "list_all letter lg" by auto
    with lg show "l \<noteq> [] \<and> list_all letter l \<and> (\<exists>lg \<in> set languages. map lower l = map lower lg)"
      using list_all2_ieq_letters [of lg l] list_all2_ieq_lower [of lg l] by auto
  qed
  then have Lsp: "\<forall>c \<in> set ?L. \<not> ?p c"
    using letter_not_space by (auto simp: list_all_iff split: option.splits)
  have lstrip: "(case lang of Some l \<Rightarrow> py_strip U l | None \<Rightarrow> []) = ?L"
  proof (cases lang)
    case None
    then show ?thesis by simp
  next
    case (Some l)
    with lang Lsp have "l \<noteq> []" "\<forall>c \<in> set l. \<not> ?p c" by auto
    then have "py_strip U l = l" by (intro py_strip_id) (simp add: hd_in_set)
    with Some show ?thesis by simp
  qed
  have tidy_name: "tidy ?name"
    using tidy s set_py_strip_chars [of separators t] by (auto simp: tidy_def)
  have ends: "?name \<noteq> [] \<longrightarrow> \<not> ?p (hd ?name) \<and> \<not> ?p (last ?name)"
  proof
    assume ne: "?name \<noteq> []"
    with py_strip_chars_ends [of separators t]
    have "hd ?name \<notin> set separators" "last ?name \<notin> set separators" by auto
    with paren_not_space(4) have "hd ?name \<noteq> 32" "last ?name \<noteq> 32" by auto
    with ne tidy_space [OF tidy_name, of _ U] show "\<not> ?p (hd ?name) \<and> \<not> ?p (last ?name)"
      by (simp add: hd_in_set)
  qed
  let ?tail = "[40] @ y @ [41] @ (case lang of None \<Rightarrow> [] | Some l \<Rightarrow> 32 # l)"
  have tail_runs: "sub_runs ?p ?tail = ?tail"
  proof -
    have "sub_runs ?p (case lang of None \<Rightarrow> [] | Some l \<Rightarrow> 32 # l)
            = (case lang of None \<Rightarrow> [] | Some l \<Rightarrow> 32 # l)"
    proof (cases lang)
      case None
      then show ?thesis by simp
    next
      case (Some l)
      with lang Lsp have ne: "l \<noteq> []" and sp: "\<forall>c \<in> set l. \<not> ?p c" by auto
      then have "\<not> ?p (hd l)" by (simp add: hd_in_set)
      with ne have "sub_runs ?p (32 # l) = 32 # sub_runs ?p l"
        using paren_not_space(3) by (intro sub_runs_blank) auto
      with sp Some show ?thesis by (simp add: sub_runs_clean')
    qed
    moreover have "sub_runs ?p ?tail
        = 40 # y @ 41 # sub_runs ?p (case lang of None \<Rightarrow> [] | Some l \<Rightarrow> 32 # l)"
      using ydig paren_not_space(1,2) by (simp add: sub_runs_clean)
    ultimately show ?thesis by simp
  qed
  let ?C = "(if ?name = [] then [] else ?name @ [32]) @ ?tail"
  let ?a = "if ?name = [] then [32] else []"
  let ?b = "case lang of None \<Rightarrow> [32::nat] | Some l \<Rightarrow> []"
  have X: "?name @ u '' ('' @ py_strip U y @ u '') ''
             @ (case lang of Some l \<Rightarrow> py_strip U l | None \<Rightarrow> []) = ?a @ ?C @ ?b"
    unfolding ystrip lstrip by (simp add: u_def split: option.splits)
  have Cne: "?C \<noteq> []" by simp
  have Chd: "\<not> ?p (hd ?C)"
    using ends paren_not_space(1) by (simp add: hd_append)
  have Clast: "\<not> ?p (last ?C)"
    using Lsp lang paren_not_space(2) by (auto split: option.splits)
  have ab: "\<forall>c \<in> set ?a. ?p c" "\<forall>c \<in> set ?b. ?p c"
    using paren_not_space(3) by (auto split: option.splits)
  have strip: "py_strip U (?a @ ?C @ ?b) = ?C"
    using Cne Chd Clast ab by (rule py_strip_both)
  have runs: "sub_runs ?p ?C
      = (if ?name = [] then [] else sub_runs ?p ?name @ [32]) @ ?tail"
  proof (cases "?name = []")
    case True
    with tail_runs show ?thesis by simp
  next
    case False
    with ends have e: "\<not> ?p (last ?name)" by simp
    have "sub_runs ?p (?name @ (32 # ?tail)) = sub_runs ?p ?name @ sub_runs ?p (32 # ?tail)"
      using False e by (rule sub_runs_append)
    moreover have "sub_runs ?p (32 # ?tail) = 32 # sub_runs ?p ?tail"
      using paren_not_space(1,3) by (intro sub_runs_blank) auto
    ultimately show ?thesis using False tail_runs by simp
  qed
  have "format_name U s = sub_runs ?p (py_strip U (?a @ ?C @ ?b))"
    using fy X by (simp add: format_name_def Let_def)
  with strip runs have "format_name U s
      = (if ?name = [] then [] else sub_runs ?p ?name @ [32]) @ ?tail" by simp
  with ylen yasc lang ends show ?thesis by simp
qed

text \<open>
  C4, as the code has it.  When the pattern of line 120 matches with a language, that is
  when the language follows the year directly, separated at most by a closing parenthesis,
  blanks and underscores, the result is the title, a blank, the year in parentheses, a
  blank and the language as the file name spells it.  The title is the captured text
  stripped of the separators at both ends, with every run of blanks collapsed: it has no
  two blanks in a row and no separator at either end; when it is empty, the result starts
  with the parenthesis.  The year has four digits, and the language is one of the five up
  to case.
\<close>

theorem clean_filename_title_year_language:
  assumes "find_year U [] (step5 U filename) = Some (t, y, Some l)"
  shows "clean_filename U filename
           = (if py_strip_chars separators t = [] then []
              else sub_runs (is_space U) (py_strip_chars separators t) @ u '' '')
             @ u ''('' @ y @ u '') '' @ l
         \<and> length y = 4 \<and> list_all ascii_digit y
         \<and> (\<exists>lg \<in> set languages. map lower l = map lower lg)
         \<and> single_spaced (sub_runs (is_space U) (py_strip_chars separators t))
         \<and> (py_strip_chars separators t \<noteq> [] \<longrightarrow>
              hd (sub_runs (is_space U) (py_strip_chars separators t)) \<notin> set separators
              \<and> last (sub_runs (is_space U) (py_strip_chars separators t)) \<notin> set separators)"
proof -
  let ?name = "py_strip_chars separators t"
  note m = format_name_match [OF step5_tidy assms]
  from m have eq: "clean_filename U filename
           = (if ?name = [] then [] else sub_runs (is_space U) ?name @ u '' '')
             @ u ''('' @ y @ u '') '' @ l"
    by (simp add: clean_filename_def u_def)
  from m have y: "length y = 4 \<and> list_all ascii_digit y"
    and l: "\<exists>lg \<in> set languages. map lower l = map lower lg" by simp_all
  have sp: "single_spaced (sub_runs (is_space U) ?name)"
    using paren_not_space(3) by (rule single_spaced_sub_runs)
  have ends: "?name \<noteq> [] \<longrightarrow>
              hd (sub_runs (is_space U) ?name) \<notin> set separators
              \<and> last (sub_runs (is_space U) ?name) \<notin> set separators"
  proof
    assume ne: "?name \<noteq> []"
    with m have "\<not> is_space U (hd ?name)" "\<not> is_space U (last ?name)" by simp_all
    with ne have "hd (sub_runs (is_space U) ?name) = hd ?name"
      "last (sub_runs (is_space U) ?name) = last ?name"
      by (simp_all add: hd_sub_runs last_sub_runs)
    with ne py_strip_chars_ends [of separators t]
    show "hd (sub_runs (is_space U) ?name) \<notin> set separators
              \<and> last (sub_runs (is_space U) ?name) \<notin> set separators" by simp
  qed
  from eq y l sp ends show ?thesis by blast
qed

theorem clean_filename_title_year_language_witness:
  "clean_filename ascii_db (u ''Movie_Title_(2021)_Tamil_HDRip.mkv'')
     = u ''Movie Title (2021) Tamil''"
proof -
  have fy: "find_year ascii_db [] (step5 ascii_db (u ''Movie_Title_(2021)_Tamil_HDRip.mkv''))
      = Some (u ''Movie Title'', u ''2021'', Some (u ''Tamil''))"
    by code_simp
  have n: "py_strip_chars separators (u ''Movie Title'') = u ''Movie Title''"
    by code_simp
  have r: "sub_runs (is_space ascii_db) (u ''Movie Title'') = u ''Movie Title''"
    by code_simp
  have ne: "u ''Movie Title'' \<noteq> []" by (simp add: u_def)
  from clean_filename_title_year_language [OF fy] show ?thesis
    by (simp add: n r ne) (simp add: u_def)
qed

text \<open>
  C4 as stated fails: in \<open>Movie.2021.Tamil\<close> a dot stands between the year and the
  language, the pattern takes no language, and the result ends with the year.
\<close>

theorem language_after_dot_is_dropped:
  "step5 ascii_db (u ''Movie.2021.Tamil'') = u ''Movie.2021.Tamil''
   \<and> clean_filename ascii_db (u ''Movie.2021.Tamil'') = u ''Movie (2021)''
   \<and> \<not> title_year_language (clean_filename ascii_db (u ''Movie.2021.Tamil''))"
  by code_simp

lemma title_year_language_example: "title_year_language (u ''Movie Title (2021) Tamil'')"
  by code_simp

lemma set_bracket_end: "bracket_end s = Some r \<Longrightarrow> set r \<subseteq> set s"
  by (induction s) (auto split: if_splits)

lemma set_strip_brackets: "set (strip_brackets s) \<subseteq> set s"
proof (induction s rule: strip_brackets.induct)
  case 1
  then show ?case by simp
next
  case (2 c cs)
  show ?case
  proof (cases "c = 91")
    case False
    with 2 show ?thesis by auto
  next
    case True
    show ?thesis
    proof (cases "bracket_end cs")
      case None
      with 2 True show ?thesis by auto
    next
      case (Some r)
      with 2 True set_bracket_end [OF Some] show ?thesis by auto
    qed
  qed
qed

lemma set_step5: "set (step5 U filename) \<subseteq> insert 32 (set filename)"
proof -
  let ?a = "strip_non_ascii (strip_prefix U (strip_brackets filename))"
  have a: "set ?a \<subseteq> set filename"
    using set_strip_brackets [of filename]
    by (auto simp: strip_non_ascii_def strip_prefix_def dest: set_dropWhileD)
  have "set (step4 U filename) \<subseteq> set (sub_runs (\<lambda>c. c = 95 \<or> is_space U c) ?a)"
    unfolding step4_def collapse_ws_def by (rule set_py_strip)
  also have "\<dots> \<subseteq> insert 32 (set ?a)"
    using set_sub_runs [of "\<lambda>c. c = 95 \<or> is_space U c" ?a] by blast
  finally have 4: "set (step4 U filename) \<subseteq> insert 32 (set filename)"
    using a by auto
  have "set (step5 U filename) \<subseteq> set (sub_tags U (step4 U filename))"
    unfolding step5_def strip_tags_def by (rule set_py_strip)
  also have "\<dots> \<subseteq> insert 32 (set (step4 U filename))"
    by (rule set_sub_tags)
  finally show ?thesis using 4 by auto
qed

lemma match_year_digit: "match_year U s = Some yl \<Longrightarrow> \<exists>c \<in> set s. is_decimal U c"
proof -
  assume a: "match_year U s = Some yl"
  let ?r = "skip_optional 40 (dropWhile (blank_or_underscore U) s)"
  from a have len: "4 \<le> length ?r" and d: "list_all (is_decimal U) (take 4 ?r)"
    by (auto simp: match_year_def Let_def split: if_splits)
  from len have "?r \<noteq> []" by auto
  then have "hd ?r \<in> set (take 4 ?r)" by (cases ?r) auto
  with d have "is_decimal U (hd ?r)" by (simp add: list_all_iff)
  moreover have "hd ?r \<in> set s"
    using \<open>?r \<noteq> []\<close> set_skip_optional [of 40 "dropWhile (blank_or_underscore U) s"]
    by (auto dest!: set_dropWhileD hd_in_set)
  ultimately show ?thesis by blast
qed

lemma find_year_no_digit: "\<forall>c \<in> set s. \<not> is_decimal U c \<Longrightarrow> find_year U t s = None"
proof (induction U t s rule: find_year.induct)
  case (1 U title)
  then show ?case using match_year_digit [of U "[]"] by (auto split: option.splits)
next
  case (2 U title c cs)
  from "2.prems" match_year_digit [of U "c # cs"] have n: "match_year U (c # cs) = None"
    by (cases "match_year U (c # cs)") auto
  with 2 show ?case by auto
qed

text \<open>
  C5, as the code has it.  \<open>clean_filename\<close> is a total function.  When the pattern does
  not match the text of step 5, the result is that text, the one after the removal of the
  tags, stripped of the separator characters at both ends; so it neither starts nor ends
  with a separator.  A file name without any digit never matches.
\<close>

theorem clean_filename_no_match:
  "(find_year U [] (step5 U filename) = None \<longrightarrow>
      clean_filename U filename = py_strip_chars separators (step5 U filename)
      \<and> (clean_filename U filename = []
           \<or> (hd (clean_filename U filename) \<notin> set separators
               \<and> last (clean_filename U filename) \<notin> set separators)))
   \<and> (list_all (\<lambda>c. \<not> ascii_digit c) filename \<longrightarrow> find_year U [] (step5 U filename) = None)"
proof (intro conjI impI)
  assume n: "find_year U [] (step5 U filename) = None"
  then show eq: "clean_filename U filename = py_strip_chars separators (step5 U filename)"
    by (simp add: clean_filename_def format_name_def)
  show "clean_filename U filename = []
           \<or> (hd (clean_filename U filename) \<notin> set separators
               \<and> last (clean_filename U filename) \<notin> set separators)"
    unfolding eq by (rule py_strip_chars_ends)
next
  assume nd: "list_all (\<lambda>c. \<not> ascii_digit c) filename"
  have "\<forall>c \<in> set (step5 U filename). \<not> is_decimal U c"
  proof
    fix c assume c: "c \<in> set (step5 U filename)"
    with step5_tidy [of U filename] have asc: "c < 128" by (simp add: tidy_def)
    from c set_step5 [of U filename] have "c = 32 \<or> c \<in> set filename" by auto
    with nd have "\<not> ascii_digit c" by (auto simp: list_all_iff ascii_digit_def)
    with asc show "\<not> is_decimal U c" by (simp add: is_decimal_def)
  qed
  then show "find_year U [] (step5 U filename) = None" by (rule find_year_no_digit)
qed

theorem clean_filename_no_match_witness:
  "clean_filename ascii_db (u ''HD.-Movie-'') = u ''Movie''"
proof -
  have nd: "list_all (\<lambda>c. \<not> ascii_digit c) (u ''HD.-Movie-'')" by code_simp
  have s5: "py_strip_chars separators (step5 ascii_db (u ''HD.-Movie-'')) = u ''Movie''"
    by code_simp
  from clean_filename_no_match [of ascii_db "u ''HD.-Movie-''"] nd s5
  show ?thesis by simp
qed

text \<open>
  C5 as stated fails: for \<open>Movie HDRip\<close> the pattern does not match, step 4 leaves the
  text as it is, and the result is \<open>Movie\<close>: the tag is gone.
\<close>

theorem no_match_returns_step5_text:
  "find_year ascii_db [] (step5 ascii_db (u ''Movie HDRip'')) = None
   \<and> find_year ascii_db [] (step4 ascii_db (u ''Movie HDRip'')) = None
   \<and> spec_no_match_result ascii_db (u ''Movie HDRip'') = u ''Movie HDRip''
   \<and> clean_filename ascii_db (u ''Movie HDRip'') = u ''Movie''"
  by code_simp

lemma match_lit_append: "match_lit p a = Some r \<Longrightarrow> match_lit p (a @ w) = Some (r @ w)"
  by (induction p a rule: match_lit.induct) (auto split: if_splits)

lemma tags_no_sep:
  "t \<in> set tags \<Longrightarrow> p \<in> set (fst t) \<Longrightarrow> x = 32 \<or> x = 40 \<or> x = 41 \<Longrightarrow> \<not> ieq p x"
  by (auto simp: tags_def u_def ieq_def lower_def)

lemma sep_not_decimal: "x = 32 \<or> x = 40 \<or> x = 41 \<Longrightarrow> \<not> is_decimal U x"
  by (auto simp: is_decimal_def ascii_digit_def)

lemma match_lit_sub_runs:
  "\<forall>p \<in> set lit. \<not> ieq p 32 \<Longrightarrow> match_lit lit (sub_runs q r) = Some y \<Longrightarrow>
     \<exists>y'. match_lit lit r = Some y' \<and> y = sub_runs q y'"
proof (induction lit arbitrary: r)
  case Nil
  then show ?case by simp
next
  case (Cons p ps)
  show ?case
  proof (cases r)
    case Nil
    with Cons.prems show ?thesis by simp
  next
    case (Cons c cs)
    show ?thesis
    proof (cases "q c")
      case True
      with Cons Cons.prems show ?thesis by simp
    next
      case False
      with Cons Cons.prems have "ieq p c" and "match_lit ps (sub_runs q cs) = Some y"
        by (auto split: if_splits)
      with Cons.IH [of cs] Cons.prems(1) Cons show ?thesis by auto
    qed
  qed
qed

lemma first_tag_None_iff:
  "first_tag U ts r = None \<longleftrightarrow> (\<forall>t \<in> set ts. match_tag U t r = None)"
  by (induction ts) (auto split: option.splits)

lemma no_tag_match_suffix: "no_tag_match U (a @ b) \<Longrightarrow> no_tag_match U b"
  by (induction a) auto

lemma no_tag_match_sub_tags: "no_tag_match U s \<Longrightarrow> sub_tags U s = s"
  by (induction s) auto

lemma first_tag_sep:
  assumes x: "x = 32 \<or> x = 40 \<or> x = 41"
  shows "first_tag U tags (x # z) = None"
  unfolding first_tag_None_iff
proof
  fix t assume t: "t \<in> set tags"
  with tags_nonempty obtain p ps where lit: "fst t = p # ps" by (cases "fst t") auto
  with tags_no_sep [OF t _ x, of p] have "\<not> ieq p x" by simp
  with lit show "match_tag U t (x # z) = None" by (simp add: match_tag_def)
qed

lemma match_end_append:
  "match_end U r \<noteq> None \<Longrightarrow> b = [] \<or> \<not> is_word U (hd b) \<Longrightarrow> match_end U (r @ b) \<noteq> None"
  by (cases r; cases b) (auto simp: match_end_def split: if_splits)

lemma dropWhile_append_stop:
  "b = [] \<or> \<not> P (hd b) \<Longrightarrow> dropWhile P (r @ b) = dropWhile P r @ b"
  by (induction r; cases b) auto

lemma match_tag_append:
  assumes m: "match_tag U t r \<noteq> None"
    and b: "b = [] \<or> (\<not> is_word U (hd b) \<and> \<not> is_decimal U (hd b))"
  shows "match_tag U t (r @ b) \<noteq> None"
proof -
  from m obtain r1 r2 where 1: "match_lit (fst t) r = Some r1"
    and 2: "match_digits U (snd t) r1 = Some r2" and 3: "match_end U r2 \<noteq> None"
    by (auto simp: match_tag_def split: option.splits)
  from b have dw: "dropWhile (is_decimal U) (x @ b) = dropWhile (is_decimal U) x @ b" for x
    by (intro dropWhile_append_stop) auto
  from dw [of "[]"] have dw0: "dropWhile (is_decimal U) b = b" by simp
  have "match_digits U (snd t) (r1 @ b) = Some (r2 @ b)"
    using 2 dw dw0 by (cases "snd t"; cases r1) (auto simp: match_digits_def split: if_splits)
  moreover from 3 b have "match_end U (r2 @ b) \<noteq> None" by (intro match_end_append) auto
  ultimately show ?thesis using match_lit_append [OF 1, of b] by (simp add: match_tag_def)
qed

lemma no_tag_match_strip_right:
  "no_tag_match U (m @ b) \<Longrightarrow> \<forall>c \<in> set b. \<not> is_word U c \<and> \<not> is_decimal U c \<Longrightarrow>
     no_tag_match U m"
proof (induction m)
  case Nil
  then show ?case by simp
next
  case (Cons c cs)
  from Cons.prems(1) have ft: "first_tag U tags (c # cs @ b) = None"
    and r: "no_tag_match U (cs @ b)" by simp_all
  from Cons.prems(2) have hb: "b = [] \<or> (\<not> is_word U (hd b) \<and> \<not> is_decimal U (hd b))"
    by (cases b) auto
  have "first_tag U tags (c # cs) = None"
    unfolding first_tag_None_iff
  proof
    fix t assume "t \<in> set tags"
    with ft have "match_tag U t ((c # cs) @ b) = None" by (simp add: first_tag_None_iff)
    with match_tag_append [where t = t and r = "c # cs", OF _ hb] show "match_tag U t (c # cs) = None"
      by (cases "match_tag U t (c # cs)") auto
  qed
  with Cons.IH [OF r Cons.prems(2)] show ?case by simp
qed

lemma ascii_space_props:
  "c < 128 \<Longrightarrow> is_space U c \<Longrightarrow> \<not> is_word U c \<and> \<not> is_decimal U c"
  by (auto simp: is_space_def is_word_def is_decimal_def ascii_space_def ascii_alnum_def
      ascii_digit_def)

lemma dropWhile_sub_runs:
  "\<forall>c \<in> set y. q c \<longrightarrow> \<not> P c \<Longrightarrow> \<not> P 32 \<Longrightarrow>
     dropWhile P (sub_runs q y) = sub_runs q (dropWhile P y)"
  by (induction y) auto

lemma match_end_sub_runs:
  "match_end U (sub_runs q z) \<noteq> None \<Longrightarrow> \<forall>c \<in> set z. q c \<longrightarrow> \<not> is_word U c \<Longrightarrow>
     match_end U z \<noteq> None"
  by (cases z) (auto simp: match_end_def split: if_splits)

lemma match_tag_sub_runs:
  assumes t: "t \<in> set tags"
    and ch: "\<forall>c \<in> set r. q c \<longrightarrow> \<not> is_word U c \<and> \<not> is_decimal U c"
    and m: "match_tag U t (sub_runs q r) \<noteq> None"
  shows "match_tag U t r \<noteq> None"
proof -
  from m obtain y z where y: "match_lit (fst t) (sub_runs q r) = Some y"
    and z: "match_digits U (snd t) y = Some z" and e: "match_end U z \<noteq> None"
    by (auto simp: match_tag_def split: option.splits)
  have "\<forall>p \<in> set (fst t). \<not> ieq p 32" using tags_no_sep [OF t] by blast
  from match_lit_sub_runs [OF this y] obtain y' where y': "match_lit (fst t) r = Some y'"
    and yy: "y = sub_runs q y'" by blast
  from set_match_lit [OF y'] ch
  have chy: "\<forall>c \<in> set y'. q c \<longrightarrow> \<not> is_word U c \<and> \<not> is_decimal U c" by blast
  then have chd: "\<forall>c \<in> set y'. q c \<longrightarrow> \<not> is_decimal U c" by blast
  have n32: "\<not> is_decimal U 32" by (rule sep_not_decimal) simp
  have "\<exists>z'. match_digits U (snd t) y' = Some z' \<and> z = sub_runs q z' \<and> set z' \<subseteq> set y'"
  proof (cases "snd t")
    case NoDigits
    with z yy show ?thesis by (simp add: match_digits_def)
  next
    case DigitsStar
    with z yy dropWhile_sub_runs [OF chd n32] show ?thesis
      by (auto simp: match_digits_def dest: set_dropWhileD)
  next
    case DigitsPlus
    show ?thesis
    proof (cases y')
      case Nil
      with z yy DigitsPlus show ?thesis by (simp add: match_digits_def)
    next
      case (Cons c cs)
      with z yy DigitsPlus n32 have nq: "\<not> q c" and dc: "is_decimal U c"
        and zz: "z = dropWhile (is_decimal U) (sub_runs q cs)"
        by (auto simp: match_digits_def split: if_splits)
      from chd Cons have "\<forall>x \<in> set cs. q x \<longrightarrow> \<not> is_decimal U x" by simp
      from dropWhile_sub_runs [OF this n32] zz
      have "z = sub_runs q (dropWhile (is_decimal U) cs)" by simp
      with Cons DigitsPlus dc show ?thesis
        by (auto simp: match_digits_def dest: set_dropWhileD)
    qed
  qed
  then obtain z' where z': "match_digits U (snd t) y' = Some z'" and zz: "z = sub_runs q z'"
    and sub: "set z' \<subseteq> set y'" by blast
  from sub chy have "\<forall>c \<in> set z'. q c \<longrightarrow> \<not> is_word U c" by blast
  with e zz have "match_end U z' \<noteq> None" using match_end_sub_runs by blast
  with y' z' show ?thesis by (simp add: match_tag_def)
qed

lemma no_tag_match_sub_runs:
  "no_tag_match U s \<Longrightarrow> \<forall>c \<in> set s. q c \<longrightarrow> \<not> is_word U c \<and> \<not> is_decimal U c \<Longrightarrow>
     no_tag_match U (sub_runs q s)"
proof (induction q s rule: sub_runs.induct)
  case (1 q)
  then show ?case by simp
next
  case (2 q c cs)
  from "2.prems"(1) have ft: "first_tag U tags (c # cs) = None" and nt: "no_tag_match U cs"
    by simp_all
  show ?case
  proof (cases "q c")
    case True
    have "no_tag_match U (dropWhile q cs)"
      using no_tag_match_suffix [of U "takeWhile q cs" "dropWhile q cs"] nt by simp
    moreover have "\<forall>x \<in> set (dropWhile q cs). q x \<longrightarrow> \<not> is_word U x \<and> \<not> is_decimal U x"
      using "2.prems"(2) by (auto dest: set_dropWhileD)
    ultimately have "no_tag_match U (sub_runs q (dropWhile q cs))"
      using "2.IH"(1) [OF True] by blast
    with True first_tag_sep [of 32 U] show ?thesis by simp
  next
    case False
    have "first_tag U tags (sub_runs q (c # cs)) = None"
      unfolding first_tag_None_iff
    proof
      fix t assume t: "t \<in> set tags"
      with ft have "match_tag U t (c # cs) = None" by (simp add: first_tag_None_iff)
      with match_tag_sub_runs [OF t "2.prems"(2)]
      show "match_tag U t (sub_runs q (c # cs)) = None"
        by (cases "match_tag U t (sub_runs q (c # cs))") auto
    qed
    moreover from "2.prems"(2) have "\<forall>x \<in> set cs. q x \<longrightarrow> \<not> is_word U x \<and> \<not> is_decimal U x"
      by simp
    ultimately show ?thesis using False "2.IH"(2) [OF False nt] by simp
  qed
qed

lemma bracket_end_None: "93 \<notin> set cs \<Longrightarrow> bracket_end cs = None"
  by (induction cs) auto

lemma bracket_free_strip: "bracket_free s \<Longrightarrow> strip_brackets s = s"
  by (induction s rule: strip_brackets.induct) (auto simp: bracket_end_None)

lemma bracket_free_append: "bracket_free (a @ b) \<Longrightarrow> bracket_free a \<and> bracket_free b"
  by (induction a) auto

lemma bracket_free_no_open: "91 \<notin> set z \<Longrightarrow> bracket_free z"
  by (induction z) auto

lemma bracket_free_extend:
  "bracket_free a \<Longrightarrow> 91 \<notin> set z \<Longrightarrow> 93 \<notin> set z \<Longrightarrow> bracket_free (a @ z)"
  by (induction a) (auto simp: bracket_free_no_open)

lemma bracket_free_sub_runs: "bracket_free s \<Longrightarrow> bracket_free (sub_runs q s)"
proof (induction q s rule: sub_runs.induct)
  case (1 q)
  then show ?case by simp
next
  case (2 q c cs)
  from "2.prems" have bf: "bracket_free cs" by simp
  show ?case
  proof (cases "q c")
    case True
    have "cs = takeWhile q cs @ dropWhile q cs" by simp
    with bf bracket_free_append [of "takeWhile q cs" "dropWhile q cs"]
    have "bracket_free (dropWhile q cs)" by simp
    with "2.IH"(1) [OF True] True show ?thesis by simp
  next
    case False
    have "93 \<in> set (sub_runs q cs) \<Longrightarrow> 93 \<in> set cs"
      using set_sub_runs [of q cs] by auto
    with False "2.IH"(2) [OF False bf] "2.prems" show ?thesis by auto
  qed
qed

lemma single_spaced_append: "single_spaced (a @ b) \<Longrightarrow> single_spaced a \<and> single_spaced b"
proof (induction a rule: single_spaced.induct)
  case 1
  then show ?case by simp
next
  case (2 v)
  then show ?case by (cases b) auto
next
  case (3 x y r)
  then show ?case by simp
qed

lemma single_spaced_join:
  "single_spaced a \<Longrightarrow> single_spaced b \<Longrightarrow> a = [] \<or> b = [] \<or> last a \<noteq> 32 \<or> hd b \<noteq> 32 \<Longrightarrow>
     single_spaced (a @ b)"
proof (induction a rule: single_spaced.induct)
  case 1
  then show ?case by simp
next
  case (2 v)
  then show ?case by (cases b) auto
next
  case (3 x y r)
  then show ?case by simp
qed

lemma sub_runs_id: "\<forall>c \<in> set s. q c \<longrightarrow> c = 32 \<Longrightarrow> single_spaced s \<Longrightarrow> sub_runs q s = s"
proof (induction q s rule: sub_runs.induct)
  case (1 q)
  then show ?case by simp
next
  case (2 q c cs)
  from "2.prems" have ss: "single_spaced cs"
    using single_spaced_append [of "[c]" cs] by simp
  show ?case
  proof (cases "q c")
    case False
    with 2 ss show ?thesis by simp
  next
    case True
    with "2.prems" have c: "c = 32" by simp
    have dw: "dropWhile q cs = cs"
    proof (cases cs)
      case Nil
      then show ?thesis by simp
    next
      case (Cons d ds)
      with c "2.prems"(2) have "d \<noteq> 32" by simp
      with Cons "2.prems"(1) have "\<not> q d" by auto
      with Cons show ?thesis by simp
    qed
    with "2.IH"(1) [OF True] "2.prems"(1) ss have "sub_runs q cs = cs" by simp
    with True c dw show ?thesis by simp
  qed
qed

lemma rev_strip_split: "xs = rev (dropWhile P (rev xs)) @ rev (takeWhile P (rev xs))"
  by (metis rev_append rev_rev_ident takeWhile_dropWhile_id)

lemma py_strip_infix: "\<exists>a b. s = a @ py_strip U s @ b"
proof -
  let ?d = "dropWhile (is_space U) s"
  have 1: "s = takeWhile (is_space U) s @ ?d" by simp
  have 2: "?d = py_strip U s @ rev (takeWhile (is_space U) (rev ?d))"
    unfolding py_strip_def by (rule rev_strip_split)
  from 1 2 have "s = takeWhile (is_space U) s @ py_strip U s @ rev (takeWhile (is_space U) (rev ?d))"
    by simp
  then show ?thesis by blast
qed

lemma py_strip_chars_infix: "\<exists>a b. s = a @ py_strip_chars cs s @ b"
proof -
  let ?P = "\<lambda>c. c \<in> set cs"
  let ?d = "dropWhile ?P s"
  have 1: "s = takeWhile ?P s @ ?d" by simp
  have 2: "?d = py_strip_chars cs s @ rev (takeWhile ?P (rev ?d))"
    unfolding py_strip_chars_def by (rule rev_strip_split)
  from 1 2 have "s = takeWhile ?P s @ py_strip_chars cs s @ rev (takeWhile ?P (rev ?d))"
    by simp
  then show ?thesis by blast
qed

lemma py_strip_split: "\<exists>a b. s = a @ py_strip U s @ b \<and> (\<forall>c \<in> set b. is_space U c)"
proof -
  let ?d = "dropWhile (is_space U) s"
  let ?b = "rev (takeWhile (is_space U) (rev ?d))"
  have 1: "s = takeWhile (is_space U) s @ ?d" by simp
  have 2: "?d = py_strip U s @ ?b"
    unfolding py_strip_def by (rule rev_strip_split)
  from 1 2 have "s = takeWhile (is_space U) s @ py_strip U s @ ?b" by simp
  moreover have "\<forall>c \<in> set ?b. is_space U c" by (auto dest: set_takeWhileD)
  ultimately show ?thesis by blast
qed

lemma no_tag_match_py_strip:
  assumes nt: "no_tag_match U s" and asc: "\<forall>c \<in> set s. c < 128"
  shows "no_tag_match U (py_strip U s)"
proof -
  from py_strip_split [of s U] obtain a b
    where s: "s = a @ py_strip U s @ b" and b: "\<forall>c \<in> set b. is_space U c" by blast
  from s have "set b \<subseteq> set s" by (metis Un_upper2 set_append subset_trans)
  with asc b ascii_space_props have ch: "\<forall>c \<in> set b. \<not> is_word U c \<and> \<not> is_decimal U c"
    by blast
  from nt s have "no_tag_match U (py_strip U s @ b)" using no_tag_match_suffix by metis
  from this ch show ?thesis by (rule no_tag_match_strip_right)
qed

lemma infix_props:
  assumes "s = a @ m @ b"
  shows "(bracket_free s \<longrightarrow> bracket_free m) \<and> (single_spaced s \<longrightarrow> single_spaced m)
     \<and> (tidy s \<longrightarrow> tidy m)"
  using assms bracket_free_append [of a "m @ b"] bracket_free_append [of m b]
    single_spaced_append [of a "m @ b"] single_spaced_append [of m b]
  by (auto simp: tidy_def)

lemma word_not_space: "c < 128 \<Longrightarrow> is_word U c \<Longrightarrow> \<not> is_space U c \<and> c \<noteq> 64 \<and> c \<noteq> 32"
  by (auto simp: is_word_def is_space_def ascii_alnum_def ascii_digit_def ascii_space_def)

lemma good_ends:
  assumes "good U g" and "g \<noteq> []"
  shows "\<not> is_space U (hd g)" and "\<not> is_space U (last g)" and "hd g \<noteq> 95" and "hd g \<noteq> 64"
    and "is_word U (hd g)"
proof -
  from assms have t: "tidy g" and w: "is_word U (hd g)" and l: "last g \<noteq> 32"
    by (auto simp: good_def)
  from assms(2) have hm: "hd g \<in> set g" and lm: "last g \<in> set g" by simp_all
  from t hm have "hd g < 128" "hd g \<noteq> 95" by (auto simp: tidy_def)
  with w word_not_space [of "hd g" U]
  show "\<not> is_space U (hd g)" "hd g \<noteq> 95" "hd g \<noteq> 64" "is_word U (hd g)" by auto
  from t lm l show "\<not> is_space U (last g)" using tidy_space [of g "last g" U] by simp
qed

lemma good_fixed:
  assumes g: "good U g"
  shows "strip_brackets g = g" and "strip_prefix U g = g"
    and "strip_tags U (collapse_ws U (strip_non_ascii g)) = g"
proof -
  from g have t: "tidy g" and tf: "no_tag_match U g" and bf: "bracket_free g"
    and ss: "single_spaced g" by (auto simp: good_def)
  from bf show "strip_brackets g = g" by (rule bracket_free_strip)
  show "strip_prefix U g = g"
  proof (cases g)
    case Nil
    then show ?thesis by (simp add: strip_prefix_def)
  next
    case (Cons c cs)
    with good_ends [OF g] show ?thesis by (simp add: strip_prefix_def)
  qed
  have asc: "strip_non_ascii g = g"
    using t by (auto simp: strip_non_ascii_def tidy_def intro: filter_True)
  have st: "py_strip U g = g"
  proof (cases "g = []")
    case True
    then show ?thesis by (simp add: py_strip_def)
  next
    case False
    with good_ends [OF g] show ?thesis by (intro py_strip_id) simp
  qed
  have "\<forall>c \<in> set g. (c = 95 \<or> is_space U c) \<longrightarrow> c = 32"
    using t tidy_space [OF t, of _ U] by (auto simp: tidy_def)
  from this ss have "sub_runs (\<lambda>c. c = 95 \<or> is_space U c) g = g" by (rule sub_runs_id)
  with st have cw: "collapse_ws U g = g" by (simp add: collapse_ws_def)
  from tf have "sub_tags U g = g" by (rule no_tag_match_sub_tags)
  with st have "strip_tags U g = g" by (simp add: strip_tags_def)
  with asc cw show "strip_tags U (collapse_ws U (strip_non_ascii g)) = g" by simp
qed

lemma good_step5: "good U g \<Longrightarrow> step5 U g = g"
  using good_fixed [of U g] by (simp add: step5_def step4_def)

lemma py_strip_good_ends:
  assumes "X \<noteq> []" and "\<not> is_space U (hd X)"
  shows "py_strip U X \<noteq> [] \<and> hd (py_strip U X) = hd X \<and> \<not> is_space U (last (py_strip U X))"
proof -
  from assms have d: "dropWhile (is_space U) X = X" by (rule dropWhile_hd_id)
  let ?D = "dropWhile (is_space U) (rev X)"
  from assms have "hd X \<in> set (rev X)" by simp
  with assms(2) have ne: "?D \<noteq> []" by (auto simp del: set_rev)
  then have 1: "\<not> is_space U (hd ?D)" by (rule hd_dropWhile_not)
  from ne have "last ?D = last (rev X)" by (rule last_dropWhile)
  with assms(1) have 2: "last ?D = hd X" by (simp add: last_rev)
  from d ne 1 2 show ?thesis by (simp add: py_strip_def hd_rev last_rev)
qed

lemma already_clean_step5: 
  assumes "already_clean U s"
  shows "good U (step5 U s)"
proof -
  let ?q = "\<lambda>c. c = 95 \<or> is_space U c"
  from assms have tf: "no_tag_match U s" and bf: "bracket_free s"
    and asc: "list_all (\<lambda>c. c < 128) s" and us: "95 \<notin> set s"
    and hd: "s = [] \<or> is_word U (hd s)" by (auto simp: already_clean_def)
  have 1: "strip_brackets s = s" using bf by (rule bracket_free_strip)
  have 2: "strip_prefix U s = s"
  proof (cases s)
    case Nil
    then show ?thesis by (simp add: strip_prefix_def)
  next
    case (Cons c cs)
    with hd asc us word_not_space [of c U] show ?thesis by (simp add: strip_prefix_def)
  qed
  have 3: "strip_non_ascii s = s"
    using asc by (auto simp: strip_non_ascii_def list_all_iff intro: filter_True)
  let ?X = "sub_runs ?q s"
  have s4: "step4 U s = py_strip U ?X" by (simp add: step4_def collapse_ws_def 1 2 3)
  obtain a b where inf: "?X = a @ py_strip U ?X @ b" using py_strip_infix by blast
  have qch: "\<forall>c \<in> set s. ?q c \<longrightarrow> \<not> is_word U c \<and> \<not> is_decimal U c"
    using asc us ascii_space_props [of _ U] by (auto simp: list_all_iff)
  from tf qch have ntX: "no_tag_match U ?X" by (rule no_tag_match_sub_runs)
  have "\<forall>c \<in> set ?X. c < 128"
    using set_sub_runs [of ?q s] asc by (auto simp: list_all_iff)
  with ntX have nt4: "no_tag_match U (py_strip U ?X)" by (rule no_tag_match_py_strip)
  have X: "bracket_free ?X" "single_spaced ?X"
    using bf paren_not_space(3) [of U]
    by (simp_all add: bracket_free_sub_runs single_spaced_sub_runs)
  with infix_props [OF inf] s4 nt4
  have p: "no_tag_match U (step4 U s)" "bracket_free (step4 U s)" "single_spaced (step4 U s)"
    by simp_all
  have t: "tidy (step4 U s)" by (rule step4_tidy)
  have e: "step4 U s = [] \<or> (is_word U (hd (step4 U s)) \<and> last (step4 U s) \<noteq> 32)"
  proof (cases s)
    case Nil
    with s4 show ?thesis by (simp add: py_strip_def)
  next
    case (Cons c cs)
    with hd asc us have w: "is_word U c" and c: "c < 128" "c \<noteq> 95" by auto
    with word_not_space [of c U] have nq: "\<not> ?q c" by simp
    with Cons have Xne: "?X \<noteq> []" and hX: "hd ?X = c" by simp_all
    from nq hX have "\<not> is_space U (hd ?X)" by simp
    from py_strip_good_ends [OF Xne this] hX w paren_not_space(3) [of U] s4
    show ?thesis by auto
  qed
  from p t e have g4: "good U (step4 U s)" by (simp add: good_def)
  have "strip_tags U (step4 U s) = step4 U s"
  proof -
    from p(1) have "sub_tags U (step4 U s) = step4 U s" by (rule no_tag_match_sub_tags)
    moreover have "py_strip U (step4 U s) = step4 U s"
    proof (cases "step4 U s = []")
      case True
      then show ?thesis by (simp add: py_strip_def)
    next
      case False
      with good_ends [OF g4] show ?thesis by (intro py_strip_id) simp
    qed
    ultimately show ?thesis by (simp add: strip_tags_def)
  qed
  with g4 show ?thesis by (simp add: step5_def)
qed

lemma find_year_first:
  "find_year U t0 s = Some (t, y, l) \<Longrightarrow>
     \<exists>pre rest. t = t0 @ pre \<and> s = pre @ rest \<and> match_year U rest = Some (y, l)
       \<and> (\<forall>k < length pre. match_year U (drop k pre @ rest) = None)"
proof (induction U t0 s rule: find_year.induct)
  case (1 U title)
  then show ?case by (auto split: option.splits)
next
  case (2 U title c cs)
  show ?case
  proof (cases "match_year U (c # cs)")
    case (Some yl)
    with 2 have "t = title @ [] \<and> c # cs = [] @ (c # cs) \<and> match_year U (c # cs) = Some (y, l)
       \<and> (\<forall>k < length ([] :: pystr). match_year U (drop k [] @ (c # cs)) = None)"
      by (cases yl) auto
    then show ?thesis by blast
  next
    case None
    with 2 have ne: "c \<noteq> 10" and rec: "find_year U (title @ [c]) cs = Some (t, y, l)"
      by (auto split: if_splits)
    from "2.IH" [OF None ne rec] obtain pre rest
      where p: "t = (title @ [c]) @ pre" "cs = pre @ rest" "match_year U rest = Some (y, l)"
        "\<forall>k < length pre. match_year U (drop k pre @ rest) = None"
      by blast
    have "\<forall>k < length (c # pre). match_year U (drop k (c # pre) @ rest) = None"
    proof (intro allI impI)
      fix k assume k: "k < length (c # pre)"
      show "match_year U (drop k (c # pre) @ rest) = None"
      proof (cases k)
        case 0
        with None p(2) show ?thesis by simp
      next
        case (Suc j)
        with k p(4) show ?thesis by simp
      qed
    qed
    with p have "t = title @ (c # pre) \<and> c # cs = (c # pre) @ rest
        \<and> match_year U rest = Some (y, l)
        \<and> (\<forall>k < length (c # pre). match_year U (drop k (c # pre) @ rest) = None)"
      by simp
    then show ?thesis by blast
  qed
qed

lemma find_year_Some: "match_year U s = Some (y, l) \<Longrightarrow> find_year U t0 s = Some (t0, y, l)"
  by (cases s) auto

lemma find_year_intro:
  "10 \<notin> set pre \<Longrightarrow> \<forall>k < length pre. match_year U (drop k pre @ rest) = None \<Longrightarrow>
   match_year U rest = Some (y, l) \<Longrightarrow> find_year U t0 (pre @ rest) = Some (t0 @ pre, y, l)"
proof (induction pre arbitrary: t0)
  case Nil
  then show ?case by (simp add: find_year_Some)
next
  case (Cons c pre)
  from Cons.prems(2) have 0: "match_year U ((c # pre) @ rest) = None" by (metis drop0 length_greater_0_conv list.distinct(1))
  have "\<forall>k < length pre. match_year U (drop k pre @ rest) = None"
  proof (intro allI impI)
    fix k assume "k < length pre"
    then have "Suc k < length (c # pre)" by simp
    with Cons.prems(2) have "match_year U (drop (Suc k) (c # pre) @ rest) = None" by blast
    then show "match_year U (drop k pre @ rest) = None" by simp
  qed
  with Cons.IH [of "t0 @ [c]"] Cons.prems have "find_year U (t0 @ [c]) (pre @ rest) = Some ((t0 @ [c]) @ pre, y, l)"
    by simp
  with 0 Cons.prems(1) show ?case by simp
qed

lemma find_year_None_all:
  "find_year U t0 s = None \<Longrightarrow> 10 \<notin> set s \<Longrightarrow> k \<le> length s \<Longrightarrow> match_year U (drop k s) = None"
proof (induction U t0 s arbitrary: k rule: find_year.induct)
  case (1 U title)
  then show ?case by (auto split: option.splits)
next
  case (2 U title c cs)
  from "2.prems"(1) have n: "match_year U (c # cs) = None"
    by (auto split: option.splits)
  show ?case
  proof (cases k)
    case 0
    with n show ?thesis by simp
  next
    case (Suc j)
    from "2.prems" n have "find_year U (title @ [c]) cs = None" "c \<noteq> 10" by auto
    with "2.IH" [OF n] "2.prems" Suc show ?thesis by simp
  qed
qed

lemma skip_optional_append: "d \<noteq> [] \<Longrightarrow> skip_optional x (d @ w) = skip_optional x d @ w"
  by (cases d) (auto simp: skip_optional_def)

lemma match_year_reach:
  assumes "n \<noteq> []" and "\<not> blank_or_underscore U (last n)"
  shows "\<exists>m. \<forall>W. skip_optional 40 (dropWhile (blank_or_underscore U) (n @ W)) = m @ W"
proof -
  from assms have mem: "last n \<in> set n" by simp
  from mem assms(2) have dw: "\<And>W. dropWhile (blank_or_underscore U) (n @ W)
      = dropWhile (blank_or_underscore U) n @ W"
    by (rule dropWhile_append1)
  from mem assms(2) have ne: "dropWhile (blank_or_underscore U) n \<noteq> []" by auto
  have "\<forall>W. skip_optional 40 (dropWhile (blank_or_underscore U) (n @ W))
       = skip_optional 40 (dropWhile (blank_or_underscore U) n) @ W"
    using dw skip_optional_append [OF ne] by simp
  then show ?thesis by blast
qed

lemma match_year_None_iff:
  "match_year U s = None \<longleftrightarrow>
     \<not> (4 \<le> length (skip_optional 40 (dropWhile (blank_or_underscore U) s))
        \<and> list_all (is_decimal U) (take 4 (skip_optional 40 (dropWhile (blank_or_underscore U) s))))"
  by (simp add: match_year_def Let_def)

lemma match_year_none_cross:
  assumes n: "n \<noteq> []" "\<not> blank_or_underscore U (last n)"
    and none: "match_year U (n @ X) = None" and x: "\<not> is_decimal U x"
  shows "match_year U (n @ x # Z) = None"
proof -
  from match_year_reach [OF n] obtain m
    where m: "\<And>W. skip_optional 40 (dropWhile (blank_or_underscore U) (n @ W)) = m @ W" by blast
  show ?thesis
  proof (cases "4 \<le> length m")
    case True
    then have "\<And>W. take 4 (m @ W) = take 4 m" by simp
    with none True show ?thesis
      unfolding match_year_None_iff m by simp
  next
    case False
    then have lt: "length m < 4" by simp
    have "x \<in> set (take 4 (m @ x # Z))"
    proof -
      have "take 4 (m @ x # Z) = m @ take (4 - length m) (x # Z)" using lt by simp
      moreover from lt obtain j where "4 - length m = Suc j" by (cases "4 - length m") auto
      ultimately show ?thesis by simp
    qed
    with x have "\<not> list_all (is_decimal U) (take 4 (m @ x # Z))"
      by (auto simp: list_all_iff)
    then show ?thesis unfolding match_year_None_iff m by simp
  qed
qed

lemma match_year_extend:
  assumes "match_year U a \<noteq> None"
  shows "match_year U (a @ w) \<noteq> None"
proof -
  let ?d = "dropWhile (blank_or_underscore U) a"
  from assms have len: "4 \<le> length (skip_optional 40 ?d)"
    and dec: "list_all (is_decimal U) (take 4 (skip_optional 40 ?d))"
    unfolding match_year_None_iff by simp_all
  from len have ne: "?d \<noteq> []" by (auto simp: skip_optional_def simp del: dropWhile_eq_Nil_conv)
  then have "hd ?d \<in> set a" "\<not> blank_or_underscore U (hd ?d)"
    using hd_dropWhile [of "blank_or_underscore U" a] set_dropWhileD [of "hd ?d" "blank_or_underscore U" a]
    by auto
  then have "dropWhile (blank_or_underscore U) (a @ w) = ?d @ w"
    by (rule dropWhile_append1)
  with skip_optional_append [OF ne, of 40 w]
  have "skip_optional 40 (dropWhile (blank_or_underscore U) (a @ w)) = skip_optional 40 ?d @ w"
    by simp
  with len dec show ?thesis unfolding match_year_None_iff by simp
qed

lemma match_lit_take_self: "match_lit p s = Some r \<Longrightarrow> match_lit p (take (length p) s) = Some []"
  by (induction p s rule: match_lit.induct) (auto split: if_splits)

lemma match_lit_None_take: "match_lit p s = None \<Longrightarrow> match_lit p (take n s) = None"
proof (rule ccontr)
  assume a: "match_lit p s = None" and "match_lit p (take n s) \<noteq> None"
  then obtain r where "match_lit p (take n s) = Some r" by auto
  from match_lit_append [OF this, of "drop n s"] a show False by simp
qed

lemma match_language_self: "match_language ls s = Some l \<Longrightarrow> match_language ls l = Some l"
proof (induction ls)
  case Nil
  then show ?case by simp
next
  case (Cons lg ls)
  show ?case
  proof (cases "match_lit lg s")
    case None
    with Cons have l: "match_language ls s = Some l" and ih: "match_language ls l = Some l" by simp_all
    from l obtain n where "l = take n s"
      by (induction ls) (auto split: option.splits)
    with None match_lit_None_take [of lg s n] have "match_lit lg l = None" by simp
    with ih show ?thesis by simp
  next
    case (Some r)
    with Cons.prems have l: "l = take (length lg) s" by simp
    from match_lit_take_self [OF Some] l have "match_lit lg l = Some []" by simp
    moreover from l have "take (length lg) l = l" by simp
    ultimately show ?thesis by simp
  qed
qed

lemma match_language_Nil: "match_language languages [] = None"
  by (simp add: languages_def u_def)

lemma skip_optional_suffix: "\<exists>p. s = p @ skip_optional x s"
proof (cases s)
  case Nil
  then show ?thesis by (simp add: skip_optional_def)
next
  case (Cons c cs)
  show ?thesis
  proof (cases "c = x")
    case True
    with Cons have "s = [c] @ skip_optional x s" by (simp add: skip_optional_def)
    then show ?thesis by blast
  next
    case False
    with Cons have "s = [] @ skip_optional x s" by (simp add: skip_optional_def)
    then show ?thesis by blast
  qed
qed

lemma match_language_prefix: "match_language ls s = Some l \<Longrightarrow> \<exists>w. s = l @ w"
proof (induction ls)
  case Nil
  then show ?case by simp
next
  case (Cons lg ls)
  show ?case
  proof (cases "match_lit lg s")
    case None
    with Cons show ?thesis by simp
  next
    case (Some r)
    with Cons.prems have "l = take (length lg) s" by simp
    then have "s = l @ drop (length lg) s" by simp
    then show ?thesis by blast
  qed
qed

lemma match_year_parts:
  assumes "match_year U rest = Some (y, lang)"
  shows "\<exists>a w. rest = a @ y @ w"
    and "lang = Some l \<Longrightarrow> \<exists>a w. rest = a @ l @ w"
    and "lang = Some l \<Longrightarrow> match_language languages l = Some l"
proof -
  let ?bu = "blank_or_underscore U"
  let ?r = "skip_optional 40 (dropWhile ?bu rest)"
  let ?r5 = "dropWhile ?bu (skip_optional 41 (drop 4 ?r))"
  from assms have y: "y = take 4 ?r" and l: "lang = match_language languages ?r5"
    by (auto simp: match_year_def Let_def split: if_splits)
  obtain p where p: "dropWhile ?bu rest = p @ ?r" using skip_optional_suffix by blast
  have "rest = takeWhile ?bu rest @ dropWhile ?bu rest" by simp
  with p have rest: "rest = (takeWhile ?bu rest @ p) @ ?r" by simp
  have "?r = y @ drop 4 ?r" using y by simp
  with rest have "rest = (takeWhile ?bu rest @ p) @ y @ drop 4 ?r" by simp
  then show "\<exists>a w. rest = a @ y @ w" by blast
  obtain p' where p': "drop 4 ?r = p' @ skip_optional 41 (drop 4 ?r)"
    using skip_optional_suffix by blast
  have "skip_optional 41 (drop 4 ?r) = takeWhile ?bu (skip_optional 41 (drop 4 ?r)) @ ?r5"
    by simp
  with p' have d4: "drop 4 ?r = (p' @ takeWhile ?bu (skip_optional 41 (drop 4 ?r))) @ ?r5"
    by simp
  {
    assume "lang = Some l"
    with l have ml: "match_language languages ?r5 = Some l" by simp
    then obtain w where "?r5 = l @ w" using match_language_prefix by blast
    with d4 have "drop 4 ?r = (p' @ takeWhile ?bu (skip_optional 41 (drop 4 ?r))) @ l @ w"
      by simp
    moreover have "?r = take 4 ?r @ drop 4 ?r" by simp
    ultimately have "?r = (take 4 ?r @ p' @ takeWhile ?bu (skip_optional 41 (drop 4 ?r))) @ l @ w"
      by simp
    with rest have "rest = (takeWhile ?bu rest @ p @ take 4 ?r @ p'
        @ takeWhile ?bu (skip_optional 41 (drop 4 ?r))) @ l @ w" by simp
    then show "\<exists>a w. rest = a @ l @ w" by blast
    from ml show "match_language languages l = Some l" by (rule match_language_self)
  }
qed

lemma digit_props:
  "ascii_digit c \<Longrightarrow> c < 128 \<and> c \<noteq> 95 \<and> \<not> ascii_space c \<and> c \<noteq> 32 \<and> c \<noteq> 40 \<and> c \<noteq> 41
     \<and> c \<noteq> 91 \<and> c \<noteq> 93 \<and> c \<noteq> 64 \<and> c \<noteq> 10 \<and> is_word U c \<and> is_decimal U c
     \<and> \<not> blank_or_underscore U c \<and> \<not> is_space U c"
  by (auto simp: ascii_digit_def ascii_space_def is_word_def ascii_alnum_def is_decimal_def
      blank_or_underscore_def is_space_def)

lemma letter_props:
  "letter c \<Longrightarrow> c < 128 \<and> c \<noteq> 95 \<and> \<not> ascii_space c \<and> c \<noteq> 32 \<and> c \<noteq> 40 \<and> c \<noteq> 41
     \<and> c \<noteq> 91 \<and> c \<noteq> 93 \<and> \<not> blank_or_underscore U c \<and> \<not> is_space U c"
  by (auto simp: letter_def ascii_space_def blank_or_underscore_def is_space_def)

lemma bu_props:
  "blank_or_underscore U 32" "\<not> blank_or_underscore U 40" "\<not> blank_or_underscore U 41"
  "\<not> is_word U 40"
  by (auto simp: blank_or_underscore_def is_space_def ascii_space_def is_word_def
      ascii_alnum_def ascii_digit_def)

lemma match_year_formatted:
  assumes y: "length y = 4" "list_all ascii_digit y"
    and l: "\<And>l. lang = Some l \<Longrightarrow> l \<noteq> [] \<and> list_all letter l
          \<and> match_language languages l = Some l"
  shows "match_year U (y @ 41 # (case lang of None \<Rightarrow> [] | Some l \<Rightarrow> 32 # l)) = Some (y, lang)"
    and "match_year U (32 # 40 # y @ 41 # (case lang of None \<Rightarrow> [] | Some l \<Rightarrow> 32 # l))
           = Some (y, lang)"
proof -
  let ?bu = "blank_or_underscore U"
  let ?Ls = "case lang of None \<Rightarrow> [] | Some l \<Rightarrow> 32 # l"
  from y obtain d ds where yd: "y = d # ds" by (cases y) auto
  with y(2) have d: "ascii_digit d" by simp
  have dec: "list_all (is_decimal U) y"
    using y(2) digit_props [of _ U] by (auto simp: list_all_iff)
  have 1: "dropWhile ?bu (y @ 41 # ?Ls) = y @ 41 # ?Ls"
    using yd d digit_props [of d U] by simp
  have 2: "skip_optional 40 (y @ 41 # ?Ls) = y @ 41 # ?Ls"
    using yd d digit_props [of d U] by (simp add: skip_optional_def)
  have 3: "take 4 (y @ 41 # ?Ls) = y" "drop 4 (y @ 41 # ?Ls) = 41 # ?Ls"
    "4 \<le> length (y @ 41 # ?Ls)"
    using y(1) by simp_all
  have 4: "skip_optional 41 (41 # ?Ls) = ?Ls" by (simp add: skip_optional_def)
  have 5: "match_language languages (dropWhile ?bu ?Ls) = lang"
  proof (cases lang)
    case None
    then show ?thesis by (simp add: match_language_Nil)
  next
    case (Some l)
    with l have ne: "l \<noteq> []" and le: "list_all letter l"
      and ml: "match_language languages l = Some l" by auto
    from ne le have "\<not> ?bu (hd l)" using letter_props [of "hd l" U] by (cases l) auto
    with ne have "dropWhile ?bu l = l" by (rule dropWhile_hd_id)
    with Some ml bu_props(1) [of U] show ?thesis by simp
  qed
  show A: "match_year U (y @ 41 # ?Ls) = Some (y, lang)"
    unfolding match_year_def Let_def 1 2 3 4 5 using dec 3(3) by simp
  have "dropWhile ?bu (32 # 40 # y @ 41 # ?Ls) = 40 # y @ 41 # ?Ls"
    using bu_props [of U] by simp
  moreover have "skip_optional 40 (40 # y @ 41 # ?Ls) = y @ 41 # ?Ls"
    by (simp add: skip_optional_def)
  ultimately show "match_year U (32 # 40 # y @ 41 # ?Ls) = Some (y, lang)"
    unfolding match_year_def Let_def
    using dec 3 4 5 by simp
qed

lemma strip_chars_ends:
  assumes "X \<noteq> []" and "hd X \<notin> set cs"
  shows "py_strip_chars cs X \<noteq> [] \<and> hd (py_strip_chars cs X) = hd X
     \<and> last (py_strip_chars cs X) \<notin> set cs \<and> (\<exists>b. X = py_strip_chars cs X @ b)"
proof -
  let ?P = "\<lambda>c. c \<in> set cs"
  from assms have d: "dropWhile ?P X = X" by (intro dropWhile_hd_id) auto
  let ?D = "dropWhile ?P (rev X)"
  from assms have "hd X \<in> set (rev X)" by simp
  with assms(2) have ne: "?D \<noteq> []" by (auto simp del: set_rev)
  then have 1: "\<not> ?P (hd ?D)" by (rule hd_dropWhile_not)
  from ne have "last ?D = last (rev X)" by (rule last_dropWhile)
  with assms(1) have 2: "last ?D = hd X" by (simp add: last_rev)
  have "X = rev ?D @ rev (takeWhile ?P (rev X))" by (rule rev_strip_split)
  with d have 3: "X = py_strip_chars cs X @ rev (takeWhile ?P (rev X))"
    by (simp add: py_strip_chars_def)
  from d ne 1 2 have "py_strip_chars cs X \<noteq> [] \<and> hd (py_strip_chars cs X) = hd X
     \<and> last (py_strip_chars cs X) \<notin> set cs"
    by (simp add: py_strip_chars_def hd_rev last_rev)
  with 3 show ?thesis by blast
qed

lemma py_strip_chars_id:
  "s = [] \<or> (hd s \<notin> set cs \<and> last s \<notin> set cs) \<Longrightarrow> py_strip_chars cs s = s"
proof (cases "s = []")
  case True
  then show ?thesis by (simp add: py_strip_chars_def)
next
  case False
  assume "s = [] \<or> (hd s \<notin> set cs \<and> last s \<notin> set cs)"
  with False have h: "hd s \<notin> set cs" and l: "last s \<notin> set cs" by auto
  from False h have 1: "dropWhile (\<lambda>c. c \<in> set cs) s = s" by (intro dropWhile_hd_id) auto
  from False l have "dropWhile (\<lambda>c. c \<in> set cs) (rev s) = rev s"
    by (intro dropWhile_hd_id) (auto simp: hd_rev)
  with 1 show ?thesis by (simp add: py_strip_chars_def)
qed

lemma separators_set: "set separators = {32, 45, 46, 95}"
  by (auto simp: separators_def u_def)

lemma word_not_separator: "tidy g \<Longrightarrow> c \<in> set g \<Longrightarrow> is_word U c \<Longrightarrow> c \<notin> set separators"
  by (auto simp: separators_set tidy_def is_word_def ascii_alnum_def ascii_digit_def)

lemma single_spaced_no_blank: "32 \<notin> set z \<Longrightarrow> single_spaced z"
  by (induction z rule: single_spaced.induct) auto

lemma good_Nil: "good U []"
  by (simp add: good_def tidy_def)

lemma fixed_no_match:
  assumes g: "good U g" and n: "find_year U [] g = None"
    and nt: "no_tag_match U (format_name U g)"
  shows "clean_filename U (format_name U g) = format_name U g"
proof -
  let ?r = "py_strip_chars separators g"
  have r: "format_name U g = ?r" using n by (simp add: format_name_def)
  with nt have ntr: "no_tag_match U ?r" by simp
  from g have t: "tidy g" by (simp add: good_def)
  then have nl: "10 \<notin> set g" by (auto simp: tidy_def ascii_space_def)
  have "good U ?r \<and> find_year U [] ?r = None \<and> py_strip_chars separators ?r = ?r"
  proof (cases "g = []")
    case True
    then have "?r = []" by (simp add: py_strip_chars_def)
    with True n good_Nil [of U] show ?thesis by (simp add: py_strip_chars_def)
  next
    case False
    from good_ends(5) [OF g False] have w: "is_word U (hd g)" .
    with False t have "hd g \<notin> set separators" by (intro word_not_separator [of g _ U]) simp_all
    from strip_chars_ends [OF False this] obtain b
      where ne: "?r \<noteq> []" and hd: "hd ?r = hd g" and last: "last ?r \<notin> set separators"
        and b: "g = ?r @ b" by blast
    from b have inf: "g = [] @ ?r @ b" by simp
    from last have l32: "last ?r \<noteq> 32" by (auto simp: separators_set)
    from g infix_props [OF inf] hd w l32 ntr have gr: "good U ?r"
      by (simp add: good_def)
    have fn: "find_year U [] ?r = None"
    proof (rule ccontr)
      assume "find_year U [] ?r \<noteq> None"
      then obtain t' y' l' where "find_year U [] ?r = Some (t', y', l')" by auto
      from find_year_first [OF this] obtain rest
        where rr: "?r = t' @ rest" and my: "match_year U rest = Some (y', l')" by auto
      from my have "match_year U (rest @ b) \<noteq> None" by (intro match_year_extend) simp
      moreover from b rr have gg: "g = t' @ rest @ b" by simp
      then have "length t' \<le> length g" by (metis le_add1 length_append)
      from find_year_None_all [OF n nl this] gg have "match_year U (rest @ b) = None"
        by (metis append_eq_conv_conj)
      ultimately show False by simp
    qed
    have hs: "hd ?r \<notin> set separators"
      using hd \<open>hd g \<notin> set separators\<close> by simp
    from ne hs last have "py_strip_chars separators ?r = ?r" by (intro py_strip_chars_id) simp
    with gr fn show ?thesis by simp
  qed
  then have "good U ?r" and fn: "find_year U [] ?r = None"
    and id: "py_strip_chars separators ?r = ?r" by simp_all
  from good_step5 [OF this(1)] have "clean_filename U ?r = format_name U ?r"
    by (simp add: clean_filename_def)
  also have "\<dots> = py_strip_chars separators ?r" using fn by (simp add: format_name_def)
  finally show ?thesis using id r by simp
qed

lemma formatted_tail:
  assumes y: "length y = 4" "list_all ascii_digit y"
    and l: "\<And>l. lang = Some l \<Longrightarrow> l \<noteq> [] \<and> list_all letter l"
  shows "no_tag_match U (y @ 41 # (case lang of None \<Rightarrow> [] | Some l \<Rightarrow> 32 # l)) \<Longrightarrow>
           good U (y @ 41 # (case lang of None \<Rightarrow> [] | Some l \<Rightarrow> 32 # l))"
    and "bracket_free (40 # y @ 41 # (case lang of None \<Rightarrow> [] | Some l \<Rightarrow> 32 # l))"
    and "91 \<notin> set (40 # y @ 41 # (case lang of None \<Rightarrow> [] | Some l \<Rightarrow> 32 # l))"
    and "93 \<notin> set (40 # y @ 41 # (case lang of None \<Rightarrow> [] | Some l \<Rightarrow> 32 # l))"
    and "tidy (40 # y @ 41 # (case lang of None \<Rightarrow> [] | Some l \<Rightarrow> 32 # l))"
    and "single_spaced (40 # y @ 41 # (case lang of None \<Rightarrow> [] | Some l \<Rightarrow> 32 # l))"
    and "last (40 # y @ 41 # (case lang of None \<Rightarrow> [] | Some l \<Rightarrow> 32 # l)) \<noteq> 32"
proof -
  let ?Ls = "case lang of None \<Rightarrow> [] | Some l \<Rightarrow> 32 # l"
  let ?T = "y @ 41 # ?Ls"
  from y obtain d ds where yd: "y = d # ds" by (cases y) auto
  with y(2) have d: "ascii_digit d" by simp
  have ych: "\<forall>c \<in> set y. ascii_digit c" using y(2) by (simp add: list_all_iff)
  have lch: "\<forall>c \<in> set ?Ls. c = 32 \<or> letter c"
    using l by (auto simp: list_all_iff split: option.splits)
  have chars: "\<forall>c \<in> set (40 # ?T). c = 32 \<or> c = 40 \<or> c = 41 \<or> ascii_digit c \<or> letter c"
    using ych lch by auto
  have "\<not> ((91::nat) = 32 \<or> (91::nat) = 40 \<or> (91::nat) = 41 \<or> ascii_digit 91 \<or> letter 91)"
    and "\<not> ((93::nat) = 32 \<or> (93::nat) = 40 \<or> (93::nat) = 41 \<or> ascii_digit 93 \<or> letter 93)"
    by (simp_all add: ascii_digit_def letter_def)
  with chars show n91: "91 \<notin> set (40 # ?T)" and n93: "93 \<notin> set (40 # ?T)"
    by blast+
  show td: "tidy (40 # ?T)"
    unfolding tidy_def
  proof
    fix c assume "c \<in> set (40 # ?T)"
    with chars have "c = 32 \<or> c = 40 \<or> c = 41 \<or> ascii_digit c \<or> letter c" by blast
    then show "c < 128 \<and> c \<noteq> 95 \<and> (ascii_space c \<longrightarrow> c = 32)"
      by (elim disjE) (simp_all add: ascii_space_def ascii_digit_def letter_def, presburger+)
  qed
  have ssLs: "single_spaced ?Ls"
  proof (cases lang)
    case None
    then show ?thesis by simp
  next
    case (Some l')
    with l have "l' \<noteq> []" "list_all letter l'" by auto
    then have "32 \<notin> set l'" using letter_props [of 32 U] by (auto simp: list_all_iff)
    then have "single_spaced l'" by (rule single_spaced_no_blank)
    moreover from \<open>l' \<noteq> []\<close> \<open>32 \<notin> set l'\<close> have "hd l' \<noteq> 32" by (cases l') auto
    ultimately show ?thesis using Some \<open>l' \<noteq> []\<close> by (cases l') auto
  qed
  have "32 \<notin> set (40 # y @ [41])" using ych digit_props [of 32 U] by auto
  then have "single_spaced (40 # y @ [41])" by (rule single_spaced_no_blank)
  from this ssLs have "single_spaced ((40 # y @ [41]) @ ?Ls)"
    by (rule single_spaced_join) simp
  then show ss: "single_spaced (40 # ?T)" by simp
  show last: "last (40 # ?T) \<noteq> 32"
  proof (cases lang)
    case None
    then show ?thesis by simp
  next
    case (Some l')
    with l have "l' \<noteq> []" "list_all letter l'" by auto
    then have "letter (last l')" by (simp add: list_all_iff)
    with Some \<open>l' \<noteq> []\<close> letter_props [of "last l'" U] show ?thesis by simp
  qed
  show bf40: "bracket_free (40 # ?T)" using n91 by (rule bracket_free_no_open)
  then have bf: "bracket_free ?T" by simp
  have "40 # ?T = [40] @ ?T @ []" by simp
  from infix_props [OF this] td have tdT: "tidy ?T" by blast
  from ss have ssT: "single_spaced ?T" using single_spaced_append [of "[40]" ?T] by simp
  from last have lastT: "last ?T \<noteq> 32" by simp
  have "hd ?T = d" using yd by simp
  with d have "is_word U (hd ?T)" using digit_props [of d U] by simp
  with tdT bf ssT lastT show "no_tag_match U ?T \<Longrightarrow> good U ?T" by (simp add: good_def)
qed

lemma tidy_append: "tidy a \<Longrightarrow> tidy b \<Longrightarrow> tidy (a @ b)"
  by (auto simp: tidy_def)

lemma tidy_blank: "tidy z \<Longrightarrow> tidy (32 # z)"
  by (auto simp: tidy_def)

lemma fixed_match:
  assumes g: "good U g" and fy: "find_year U [] g = Some (t, y, lang)"
    and nt: "no_tag_match U (format_name U g)"
  shows "clean_filename U (format_name U g) = format_name U g"
proof -
  let ?sp = "is_space U"
  let ?name = "py_strip_chars separators t"
  let ?Ls = "case lang of None \<Rightarrow> [] | Some l \<Rightarrow> 32 # l"
  let ?T = "y @ 41 # ?Ls"
  from g have td: "tidy g" and bf: "bracket_free g"
    and ss: "single_spaced g" by (auto simp: good_def)
  note m = format_name_match [OF td fy]
  from m have ylen: "length y = 4" and ydig: "list_all ascii_digit y" by simp_all
  from m have lfacts: "\<And>l. lang = Some l \<Longrightarrow> l \<noteq> [] \<and> list_all letter l" by simp
  from m have nsp: "?name \<noteq> [] \<Longrightarrow> \<not> ?sp (last ?name)" by simp
  from find_year_first [OF fy] obtain rest
    where gt: "g = t @ rest" and my: "match_year U rest = Some (y, lang)"
      and first: "\<forall>k < length t. match_year U (drop k t @ rest) = None" by auto
  have lang2: "\<And>l. lang = Some l \<Longrightarrow> l \<noteq> [] \<and> list_all letter l
          \<and> match_language languages l = Some l"
    using lfacts match_year_parts(3) [OF my] by simp
  note tail = formatted_tail [where lang = lang and y = y, OF ylen ydig lfacts]
  obtain a0 b0 where t0: "t = a0 @ ?name @ b0" using py_strip_chars_infix by blast
  with gt have gname: "g = a0 @ ?name @ (b0 @ rest)" by simp
  from infix_props [OF gname] td bf ss
  have n_td: "tidy ?name" and n_bf: "bracket_free ?name" and n_ss: "single_spaced ?name"
    by simp_all
  have "\<forall>c \<in> set ?name. ?sp c \<longrightarrow> c = 32"
    using tidy_space [OF n_td, of _ U] by simp
  from this n_ss have runs: "sub_runs ?sp ?name = ?name" by (rule sub_runs_id)
  have r: "format_name U g = (if ?name = [] then [] else ?name @ [32]) @ 40 # ?T"
    using m runs by simp
  show ?thesis
  proof (cases "?name = []")
    case True
    with r have r': "format_name U g = 40 # ?T" by simp
    from nt r' have ntT: "no_tag_match U ?T" by simp
    from formatted_tail(1) [where lang = lang and y = y and U = U, OF ylen ydig _ ntT] lfacts
    have gT: "good U ?T" by blast
    from ylen obtain d ds where yd: "y = d # ds" by (cases y) auto
    with ydig have d: "ascii_digit d" by simp
    have 1: "strip_brackets (40 # ?T) = 40 # ?T"
      using tail(3) by (intro bracket_free_strip bracket_free_no_open)
    have 2: "strip_prefix U (40 # ?T) = ?T"
      using yd d digit_props [of d U] bu_props(4) [of U] by (simp add: strip_prefix_def)
    from good_fixed(3) [OF gT] 1 2 have s5: "step5 U (40 # ?T) = ?T"
      by (simp add: step5_def step4_def)
    from match_year_formatted(1) [OF ylen ydig lang2]
    have "match_year U ?T = Some (y, lang)" by simp
    then have fy': "find_year U [] ?T = Some ([], y, lang)" by (rule find_year_Some)
    from gT have "tidy ?T" by (simp add: good_def)
    from format_name_match [OF this fy'] have "format_name U ?T = 40 # ?T"
      by (simp add: py_strip_chars_def)
    with s5 r' show ?thesis by (simp add: clean_filename_def)
  next
    case False
    with r have r': "format_name U g = ?name @ 32 # 40 # ?T" by simp
    from False t0 have tne: "t \<noteq> []" by auto
    with gt have gne: "g \<noteq> []" and hdt: "hd t = hd g" by auto
    from good_ends(5) [OF g gne] have w: "is_word U (hd g)" .
    with gne td have "hd g \<notin> set separators" by (intro word_not_separator [of g _ U]) simp_all
    with hdt have "hd t \<notin> set separators" by simp
    from strip_chars_ends [OF tne this] obtain b
      where hdn: "hd ?name = hd t" and lastn: "last ?name \<notin> set separators"
        and b: "t = ?name @ b" by blast
    from lastn have l32: "last ?name \<noteq> 32" and l95: "last ?name \<noteq> 95"
      by (auto simp: separators_set)
    from hdn hdt \<open>hd g \<notin> set separators\<close> have hdsep: "hd ?name \<notin> set separators" by simp
    let ?R = "?name @ 32 # 40 # ?T"
    from nt r' have R_tf: "no_tag_match U ?R" by simp
    have R_bf: "bracket_free ?R"
      using n_bf tail(3,4) by (intro bracket_free_extend) auto
    have R_td: "tidy ?R"
      using n_td tail(5) by (intro tidy_append tidy_blank)
    have R_ss: "single_spaced ?R"
    proof -
      have "single_spaced (?name @ [32])"
        using n_ss _ l32 False by (intro single_spaced_join) simp_all
      moreover have "single_spaced (40 # ?T)" by (rule tail(6))
      ultimately have "single_spaced ((?name @ [32]) @ 40 # ?T)"
        by (rule single_spaced_join) simp
      then show ?thesis by simp
    qed
    have R_hd: "is_word U (hd ?R)" using False hdn hdt w by simp
    have R_last: "last ?R \<noteq> 32" using tail(7) by simp
    from R_td R_tf R_bf R_ss R_hd R_last have gR: "good U ?R" by (simp add: good_def)
    from n_td have nl: "10 \<notin> set ?name" by (auto simp: tidy_def ascii_space_def)
    have lastbu: "\<not> blank_or_underscore U (last ?name)"
      using nsp [OF False] l95 by (simp add: blank_or_underscore_def)
    have none: "\<forall>k < length ?name. match_year U (drop k ?name @ 32 # 40 # ?T) = None"
    proof (intro allI impI)
      fix k assume k: "k < length ?name"
      then have dne: "drop k ?name \<noteq> []" by simp
      then have dl: "last (drop k ?name) = last ?name" using k by simp
      from k b have "k < length t" by (metis length_append trans_less_add1)
      with first have "match_year U (drop k t @ rest) = None" by blast
      moreover from b k have "drop k t = drop k ?name @ b" by (metis drop_append less_imp_le_nat diff_is_0_eq drop0)
      ultimately have "match_year U (drop k ?name @ (b @ rest)) = None" by simp
      from match_year_none_cross [OF dne _ this sep_not_decimal [of 32 U]] lastbu dl
      show "match_year U (drop k ?name @ 32 # 40 # ?T) = None" by simp
    qed
    from match_year_formatted(2) [OF ylen ydig lang2]
    have "match_year U (32 # 40 # ?T) = Some (y, lang)" by simp
    from find_year_intro [OF nl none this, of "[]"]
    have fy': "find_year U [] ?R = Some (?name, y, lang)" by simp
    have id: "py_strip_chars separators ?name = ?name"
      using False hdsep lastn by (intro py_strip_chars_id) simp
    from format_name_match [OF R_td fy'] id runs False
    have "format_name U ?R = ?R" by simp
    with good_step5 [OF gR] r' show ?thesis by (simp add: clean_filename_def)
  qed
qed

text \<open>
  C6, as the code has it.  On a title in which the tag pattern matches nowhere, with no
  bracketed group, no character beyond ASCII, no underscore, no leading non-word character
  and no repeated white space, and in whose cleaned form the tag pattern matches nowhere
  either, cleaning twice gives what cleaning once gives.  The first pass leaves a text
  that the steps up to line 117 do not change any more; its result is either that text
  without the separators at its ends, or a title, a year and a language that the pattern
  finds again at the same places.
\<close>

theorem clean_filename_idempotent_on_clean:
  assumes "already_clean U s" and "no_tag_match U (clean_filename U s)"
  shows "clean_filename U (clean_filename U s) = clean_filename U s"
proof -
  from assms(1) have g: "good U (step5 U s)" by (rule already_clean_step5)
  from assms(2) have nt: "no_tag_match U (format_name U (step5 U s))"
    by (simp add: clean_filename_def)
  show ?thesis
  proof (cases "find_year U [] (step5 U s)")
    case None
    with g show ?thesis
      unfolding clean_filename_def [of U s] using nt by (intro fixed_no_match)
  next
    case (Some r)
    obtain t y lang where "r = (t, y, lang)" by (cases r)
    with Some g nt show ?thesis
      unfolding clean_filename_def [of U s] by (intro fixed_match) simp_all
  qed
qed

theorem clean_filename_idempotent_on_clean_witness:
  "already_clean ascii_db (u ''Tsunami 2020'')
   \<and> no_tag_match ascii_db (clean_filename ascii_db (u ''Tsunami 2020''))
   \<and> clean_filename ascii_db (clean_filename ascii_db (u ''Tsunami 2020''))
       = clean_filename ascii_db (u ''Tsunami 2020'')"
proof -
  have 1: "already_clean ascii_db (u ''Tsunami 2020'')"
    by code_simp
  have 2: "no_tag_match ascii_db (clean_filename ascii_db (u ''Tsunami 2020''))"
    by code_simp
  from 1 2 clean_filename_idempotent_on_clean [OF 1 2] show ?thesis by simp
qed

text \<open>
  C6 as stated fails: in \<open>Movie HD2021\<close> the word \<open>HD\<close> is followed by a digit, so the
  tag pattern matches nowhere and the text meets every condition of the claim.  The first
  pass sets the year apart, which puts a blank after \<open>HD\<close>, and the second pass removes
  the word.
\<close>

theorem tag_word_before_year:
  "already_clean ascii_db (u ''Movie HD2021'')
   \<and> clean_filename ascii_db (u ''Movie HD2021'') = u ''Movie HD (2021)''
   \<and> clean_filename ascii_db (clean_filename ascii_db (u ''Movie HD2021'')) = u ''Movie (2021)''"
  by code_simp

text \<open>
  The letters of a denylist word inside a longer word are no tag: such titles meet the
  conditions, and so do their cleaned forms.
\<close>

lemma titles_with_letters_of_tags:
  "already_clean ascii_db (u ''Rambo 2008'')
   \<and> no_tag_match ascii_db (clean_filename ascii_db (u ''Rambo 2008''))
   \<and> clean_filename ascii_db (u ''Rambo 2008'') = u ''Rambo (2008)''
   \<and> already_clean ascii_db (u ''Camera'')
   \<and> no_tag_match ascii_db (clean_filename ascii_db (u ''Camera''))
   \<and> clean_filename ascii_db (u ''Camera'') = u ''Camera''
   \<and> clean_filename ascii_db (u ''Tsunami 2020'') = u ''Tsunami (2020)''"
  by code_simp

theorem clean_filename_ascii_witness:
  "list_all (\<lambda>c. c < 128)
     (clean_filename superscript_db
        [9733, 178, 77, 111, 118, 105, 101, 233, 32, 50, 48, 50, 49, 32, 9733])"
  using clean_filename_ascii
    [of superscript_db "[9733, 178, 77, 111, 118, 105, 101, 233, 32, 50, 48, 50, 49, 32, 9733]"]
  by (simp add: list_all_iff)

end
